theory Spec2Isabelle
  imports Main
begin

section \<open>Overview\<close>

text \<open>
  A shallow embedding of the utilities of the report SDK (\<open>src/utils.js\<close>): the
  block-content normalizer \<open>parseBlockContent\<close> with \<open>splitByBrTag\<close>, the styled-string
  parser \<open>parseStyledString\<close> with \<open>processSegments\<close> and \<open>stripTags\<close>, and the
  markup-tree serializer \<open>htmlToDocx\<close> with its attribute mapping \<open>parseProperties\<close> and
  its reducer \<open>nodeToObject\<close>. The definitions come first, function by function in the
  order of the source; the properties follow, one section for each component.
\<close>

section \<open>Strings and errors\<close>

text \<open>
  JavaScript strings are modelled as \<open>string\<close> (lists of \<open>char\<close>); a \<open>char\<close> stands for
  one code unit below 256. The helpers below are the string methods the source calls.
\<close>

text \<open>
  The utilities are an ES module, so they run in strict mode. The only exception the
  functions can raise on the values modelled here is a \<open>TypeError\<close>: a method call on
  \<open>null\<close> or \<open>undefined\<close>, or an assignment to a property of a primitive string.
\<close>

datatype error = TypeError

definition startsWith :: "string \<Rightarrow> string \<Rightarrow> bool" where
  \<comment> \<open>\<open>s.startsWith(p)\<close>\<close>
  "startsWith s p = (take (length p) s = p)"

fun cutAt :: "string \<Rightarrow> string \<Rightarrow> (string \<times> string) option" where
  \<comment> \<open>the first occurrence of \<open>d\<close> in the string: the text before it and the text after it\<close>
  "cutAt d [] = (if d = [] then Some ([], []) else None)"
| "cutAt d (c # cs) =
     (if startsWith (c # cs) d then Some ([], drop (length d) (c # cs))
      else (case cutAt d cs of None \<Rightarrow> None | Some (b, a) \<Rightarrow> Some (c # b, a)))"

definition includes_str :: "string \<Rightarrow> string \<Rightarrow> bool" where
  \<comment> \<open>\<open>s.includes(d)\<close>\<close>
  "includes_str s d = (cutAt d s \<noteq> None)"

lemma startsWith_length: "startsWith s p \<Longrightarrow> length p \<le> length s"
proof -
  assume "startsWith s p"
  then have "length (take (length p) s) = length p" by (simp add: startsWith_def)
  then show ?thesis by simp
qed

lemma cutAt_length:
  "cutAt d s = Some (b, a) \<Longrightarrow> length b + length d + length a = length s"
proof (induction s arbitrary: b)
  case Nil
  then show ?case by (simp split: if_splits)
next
  case (Cons c cs)
  show ?case
  proof (cases "startsWith (c # cs) d")
    case True
    from True have le: "length d \<le> length (c # cs)" by (rule startsWith_length)
    from True Cons.prems have "b = []" and "a = drop (length d) (c # cs)" by simp_all
    with le show ?thesis by simp
  next
    case False
    with Cons.prems obtain b' where "cutAt d cs = Some (b', a)" and "b = c # b'"
      by (auto split: option.splits)
    with Cons.IH [of b'] show ?thesis by simp
  qed
qed

function splitNonEmpty :: "string \<Rightarrow> string \<Rightarrow> string list" where
  \<comment> \<open>\<open>s.split(d)\<close> for a non-empty separator: cut at each occurrence, left to right\<close>
  "splitNonEmpty d s =
     (if d = [] then [s]
      else (case cutAt d s of None \<Rightarrow> [s] | Some (b, a) \<Rightarrow> b # splitNonEmpty d a))"
  by pat_completeness auto
termination
proof (relation "measure (\<lambda>(d, s). length s)")
  show "wf (measure (\<lambda>(d, s). length s))" by simp
next
  fix d s :: string and x2 b a
  assume "d \<noteq> []" and "cutAt d s = Some x2" and "(b, a) = x2"
  then have "length b + length d + length a = length s"
    using cutAt_length [of d s b a] by simp
  with \<open>d \<noteq> []\<close> show "((d, a), (d, s)) \<in> measure (\<lambda>(d, s). length s)"
    by (cases d) auto
qed

declare splitNonEmpty.simps [simp del]

definition split_str :: "string \<Rightarrow> string \<Rightarrow> string list" where
  \<comment> \<open>\<open>s.split(d)\<close>; the empty separator splits into single code units\<close>
  "split_str s d = (if d = [] then map (\<lambda>c. [c]) s else splitNonEmpty d s)"

section \<open>Block-content normalizer\<close>

subsection \<open>splitByBrTag\<close>

fun splitByBrTag :: "string list \<Rightarrow> string \<Rightarrow> string list" where
  "splitByBrTag [] delimiter = []"
| "splitByBrTag (item # arr) delimiter =
     (if includes_str item delimiter then split_str item delimiter else [item])
     @ splitByBrTag arr delimiter"

definition br :: string where
  \<comment> \<open>the default value of the \<open>delimiter\<close> parameter\<close>
  "br = ''<br>''"

subsection \<open>Blocks\<close>

text \<open>
  The CMS block as \<open>parseBlockContent\<close> reads it. A field that the source tests before
  use is an \<open>option\<close>; every item has its \<open>images\<close> and \<open>paragraphs\<close> arrays and every
  list entry its \<open>paragraphs\<close> array, which the source reads without a test. Paragraphs,
  image references and links are strings; the only falsy string is the empty one.
  \<open>blockItems\<close> holds the item objects that \<open>block.getBlockItems()\<close> returns.

  The function works on references. The objects of a block form a tree (no array or
  object sits at two positions), so the state is the block itself and a write through a
  reference is a write at the position the reference comes from:
  \<^item> \<open>images = body.imgs || []\<close> is the array \<open>body.imgs\<close> itself when the body has one,
    and \<open>images.push(x)\<close> then appends to \<open>block.main.body.imgs\<close>;
  \<^item> \<open>lists = body.lists || []\<close> holds the entry objects of \<open>body.lists\<close>, and
    \<open>item.paragraphs = ...\<close> on an entry replaces the field of that object;
  \<^item> \<open>filter\<close> and \<open>splitByBrTag\<close> return new arrays, so \<open>body.paragraphs\<close> is never
    written.
\<close>

record listEntry =
  le_paragraphs :: "string list"

record item =
  it_banner :: "string option"
  it_images :: "string list"
  it_paragraphs :: "string list"
  it_lists :: "listEntry list list option"

record header =
  h_pretitle :: "string option"
  h_title :: "string option"
  h_subtitle :: "string option"
  h_description :: "string option"

record body =
  b_paragraphs :: "string list option"
  b_imgs :: "string list option"
  b_links :: "string list option"
  b_lists :: "listEntry list list option"

record mainPart =
  m_header :: "header option"
  m_body :: "body option"
  m_banner :: "string option"

record block =
  main :: "mainPart option"
  blockItems :: "item list"

record blockContent =
  pretitle :: string
  title :: string
  subtitle :: string
  description :: string
  paragraphs :: "string list"
  images :: "string list"
  links :: "string list"
  listsOut :: "listEntry list list"
  tables :: "string list"
  items :: "item list"
  properties :: "(string \<times> string) list"

definition truthy :: "string \<Rightarrow> bool" where
  \<comment> \<open>the test \<open>(p) => p\<close> on a string\<close>
  "truthy p = (p \<noteq> [])"

definition orEmpty :: "'a list option \<Rightarrow> 'a list" where
  \<comment> \<open>\<open>x || []\<close>\<close>
  "orEmpty x = (case x of None \<Rightarrow> [] | Some xs \<Rightarrow> xs)"

definition orDefault :: "string option \<Rightarrow> string" where
  \<comment> \<open>the destructuring default \<open>= ''\<close>\<close>
  "orDefault x = (case x of None \<Rightarrow> [] | Some v \<Rightarrow> v)"

definition bannerOf :: "string option \<Rightarrow> string option" where
  \<comment> \<open>the banner when the test \<open>if (x.banner)\<close> succeeds\<close>
  "bannerOf x = (case x of None \<Rightarrow> None | Some b \<Rightarrow> if truthy b then Some b else None)"

definition moveBanner :: "item \<Rightarrow> item" where
  \<comment> \<open>\<open>if (item.banner) { item.images.push(item.banner); delete item.banner; }\<close>\<close>
  "moveBanner it =
     (case bannerOf (it_banner it) of
        None \<Rightarrow> it
      | Some b \<Rightarrow> it\<lparr>it_images := it_images it @ [b], it_banner := None\<rparr>)"

definition filterEntry :: "listEntry \<Rightarrow> listEntry" where
  \<comment> \<open>\<open>item.paragraphs = item.paragraphs.filter((p) => p)\<close> on a list entry\<close>
  "filterEntry e = e\<lparr>le_paragraphs := filter truthy (le_paragraphs e)\<rparr>"

definition filterLists :: "listEntry list list \<Rightarrow> listEntry list list" where
  \<comment> \<open>\<open>lists.forEach((list) => list.forEach((item) => ...))\<close>\<close>
  "filterLists ls = map (map filterEntry) ls"

definition filterItemParagraphs :: "item \<Rightarrow> item" where
  "filterItemParagraphs it = it\<lparr>it_paragraphs := filter truthy (it_paragraphs it)\<rparr>"

definition filterItemLists :: "item \<Rightarrow> item" where
  \<comment> \<open>\<open>if (item.lists?.length) { item.lists.forEach(...) }\<close>\<close>
  "filterItemLists it =
     (case it_lists it of
        None \<Rightarrow> it
      | Some ls \<Rightarrow> if ls \<noteq> [] then it\<lparr>it_lists := Some (filterLists ls)\<rparr> else it)"

definition splitItemParagraphs :: "item \<Rightarrow> item" where
  \<comment> \<open>\<open>item.paragraphs = splitByBrTag(item.paragraphs)\<close>\<close>
  "splitItemParagraphs it = it\<lparr>it_paragraphs := splitByBrTag (it_paragraphs it) br\<rparr>"

definition headerOf :: "block \<Rightarrow> header option" where
  \<comment> \<open>\<open>block.main?.header\<close>\<close>
  "headerOf block = (case main block of None \<Rightarrow> None | Some m \<Rightarrow> m_header m)"

definition bodyOf :: "block \<Rightarrow> body option" where
  \<comment> \<open>\<open>block.main?.body\<close>\<close>
  "bodyOf block = (case main block of None \<Rightarrow> None | Some m \<Rightarrow> m_body m)"

definition mainBanner :: "block \<Rightarrow> string option" where
  \<comment> \<open>\<open>block.main?.banner\<close>\<close>
  "mainBanner block = (case main block of None \<Rightarrow> None | Some m \<Rightarrow> m_banner m)"

definition headerField :: "block \<Rightarrow> (header \<Rightarrow> string option) \<Rightarrow> string" where
  "headerField block f = (case headerOf block of None \<Rightarrow> [] | Some h \<Rightarrow> orDefault (f h))"

definition bodyField :: "block \<Rightarrow> (body \<Rightarrow> 'a list option) \<Rightarrow> 'a list" where
  \<comment> \<open>\<open>body.f || []\<close> with \<open>body = block.main?.body || {}\<close>\<close>
  "bodyField block f = (case bodyOf block of None \<Rightarrow> [] | Some b \<Rightarrow> orEmpty (f b))"

definition updateBody :: "(body \<Rightarrow> body) \<Rightarrow> block \<Rightarrow> block" where
  \<comment> \<open>a write to the object \<open>block.main.body\<close>, when the block has one\<close>
  "updateBody f block =
     (case main block of
        None \<Rightarrow> block
      | Some m \<Rightarrow>
          (case m_body m of
             None \<Rightarrow> block
           | Some b \<Rightarrow> block\<lparr>main := Some (m\<lparr>m_body := Some (f b)\<rparr>)\<rparr>))"

definition pushImage :: "string \<Rightarrow> body \<Rightarrow> body" where
  \<comment> \<open>\<open>images.push(x)\<close> where \<open>images\<close> is the array \<open>body.imgs\<close> itself\<close>
  "pushImage x b = (case b_imgs b of None \<Rightarrow> b | Some is \<Rightarrow> b\<lparr>b_imgs := Some (is @ [x])\<rparr>)"

definition filterBodyLists :: "body \<Rightarrow> body" where
  \<comment> \<open>the entries of \<open>lists\<close> are the entry objects of \<open>body.lists\<close>\<close>
  "filterBodyLists b = (case b_lists b of None \<Rightarrow> b | Some ls \<Rightarrow> b\<lparr>b_lists := Some (filterLists ls)\<rparr>)"

subsection \<open>parseBlockContent\<close>

text \<open>
  The function returns the block as the call leaves it, together with its result. The
  steps are in the order of the source.
\<close>

definition parseBlockContent :: "block \<Rightarrow> block \<times> blockContent" where
  "parseBlockContent block =
     (let items1 = map moveBanner (blockItems block);
          paragraphs0 = bodyField block b_paragraphs;
          images0 = bodyField block b_imgs;
          links0 = bodyField block b_links;
          lists0 = bodyField block b_lists;
          (images1, block1) =
            (case bannerOf (mainBanner block) of
               None \<Rightarrow> (images0, block)
             | Some x \<Rightarrow> (images0 @ [x], updateBody (pushImage x) block));
          paragraphs1 = filter truthy paragraphs0;
          items2 = map filterItemParagraphs items1;
          lists1 = filterLists lists0;
          block2 = updateBody filterBodyLists block1;
          items3 = map filterItemLists items2;
          paragraphs2 = splitByBrTag paragraphs1 br;
          items4 = map splitItemParagraphs items3
      in (block2\<lparr>blockItems := items4\<rparr>,
          \<lparr>pretitle = headerField block h_pretitle,
           title = headerField block h_title,
           subtitle = headerField block h_subtitle,
           description = headerField block h_description,
           paragraphs = paragraphs2,
           images = images1,
           links = links0,
           listsOut = lists1,
           tables = [],
           items = items4,
           properties = []\<rparr>))"

section \<open>Styled-string parser\<close>

subsection \<open>The regular expressions\<close>

definition isWordChar :: "char \<Rightarrow> bool" where
  \<comment> \<open>the class \<open>\w\<close>: letters, digits and the underscore\<close>
  "isWordChar c =
     (let n = (of_char c :: nat)
      in (48 \<le> n \<and> n \<le> 57) \<or> (65 \<le> n \<and> n \<le> 90) \<or> n = 95 \<or> (97 \<le> n \<and> n \<le> 122))"

lemma cutAt_decomp: "cutAt d s = Some (b, a) \<Longrightarrow> s = b @ d @ a"
proof (induction s arbitrary: b)
  case Nil
  then show ?case by (simp split: if_splits)
next
  case (Cons c cs)
  show ?case
  proof (cases "startsWith (c # cs) d")
    case True
    then have "take (length d) (c # cs) = d" by (simp add: startsWith_def)
    moreover from True Cons.prems have "b = []" and "a = drop (length d) (c # cs)" by simp_all
    ultimately show ?thesis by (metis append_Nil append_take_drop_id)
  next
    case False
    with Cons.prems obtain b' where "cutAt d cs = Some (b', a)" and "b = c # b'"
      by (auto split: option.splits)
    with Cons.IH [of b'] show ?thesis by simp
  qed
qed

definition matchAt :: "string \<Rightarrow> (string \<times> string \<times> string) option" where
  \<comment> \<open>\<open><(\w+)>(.*?)<\/\1>\<close> with the flag \<open>s\<close>, tried at the start of the string: the
      tag, the inner text up to the first closing tag of that name, and the text after
      the match\<close>
  "matchAt s =
     (case s of
        [] \<Rightarrow> None
      | c # r \<Rightarrow>
          if c \<noteq> CHR ''<'' then None
          else (let tag = takeWhile isWordChar r
                in if tag = [] then None
                   else (case dropWhile isWordChar r of
                           [] \<Rightarrow> None
                         | d # r2 \<Rightarrow>
                             if d \<noteq> CHR ''>'' then None
                             else (case cutAt (''</'' @ tag @ ''>'') r2 of
                                     None \<Rightarrow> None
                                   | Some (innerText, rest) \<Rightarrow> Some (tag, innerText, rest)))))"

fun firstMatch :: "string \<Rightarrow> (string \<times> string \<times> string \<times> string) option" where
  \<comment> \<open>the leftmost match: the text before it, the tag, the inner text, the text after\<close>
  "firstMatch [] = None"
| "firstMatch (c # cs) =
     (case matchAt (c # cs) of
        Some (tag, innerText, rest) \<Rightarrow> Some ([], tag, innerText, rest)
      | None \<Rightarrow>
          (case firstMatch cs of
             None \<Rightarrow> None
           | Some (plainText, tag, innerText, rest) \<Rightarrow> Some (c # plainText, tag, innerText, rest)))"

lemma matchAt_decomp:
  assumes "matchAt s = Some (tag, innerText, rest)"
  shows "s = ''<'' @ tag @ ''>'' @ innerText @ ''</'' @ tag @ ''>'' @ rest"
    and "tag \<noteq> []" and "\<forall>c \<in> set tag. isWordChar c"
proof -
  from assms obtain r where s: "s = CHR ''<'' # r"
    by (cases s) (auto simp: matchAt_def split: if_splits)
  from assms s obtain r2 where d: "dropWhile isWordChar r = CHR ''>'' # r2"
    and t: "tag = takeWhile isWordChar r" and ne: "tag \<noteq> []"
    and c: "cutAt (''</'' @ tag @ ''>'') r2 = Some (innerText, rest)"
    by (auto simp: matchAt_def Let_def split: if_splits list.splits option.splits)
  from t d have "r = tag @ CHR ''>'' # r2" by (metis takeWhile_dropWhile_id)
  moreover from cutAt_decomp [OF c] have "r2 = innerText @ (''</'' @ tag @ ''>'') @ rest" .
  ultimately show "s = ''<'' @ tag @ ''>'' @ innerText @ ''</'' @ tag @ ''>'' @ rest"
    using s by simp
  from ne show "tag \<noteq> []" .
  from t show "\<forall>c \<in> set tag. isWordChar c" by (auto dest: set_takeWhileD)
qed

lemma firstMatch_decomp:
  "firstMatch s = Some (plainText, tag, innerText, rest) \<Longrightarrow>
     s = plainText @ ''<'' @ tag @ ''>'' @ innerText @ ''</'' @ tag @ ''>'' @ rest
     \<and> tag \<noteq> [] \<and> (\<forall>c \<in> set tag. isWordChar c)"
proof (induction s arbitrary: plainText)
  case Nil
  then show ?case by simp
next
  case (Cons c cs)
  show ?case
  proof (cases "matchAt (c # cs)")
    case (Some m)
    with Cons.prems have m: "matchAt (c # cs) = Some (tag, innerText, rest)" and "plainText = []"
      by (auto split: prod.splits)
    with matchAt_decomp [OF m] show ?thesis by simp
  next
    case None
    with Cons.prems obtain p' where "firstMatch cs = Some (p', tag, innerText, rest)"
      and "plainText = c # p'"
      by (auto split: option.splits)
    with Cons.IH [of p'] show ?thesis by simp
  qed
qed

lemma firstMatch_shorter:
  assumes "firstMatch s = Some (plainText, tag, innerText, rest)"
  shows "length innerText < length s" and "length rest < length s"
proof -
  from firstMatch_decomp [OF assms]
  have "s = plainText @ ''<'' @ tag @ ''>'' @ innerText @ ''</'' @ tag @ ''>'' @ rest" by simp
  then have "length s = length (plainText @ ''<'' @ tag @ ''>'' @ innerText @ ''</'' @ tag @ ''>'' @ rest)"
    by (rule arg_cong)
  then show "length innerText < length s" and "length rest < length s" by simp_all
qed

fun sentinelTest :: "string \<Rightarrow> bool" where
  \<comment> \<open>\<open>/<u-org>[\s\S]*?<\/u-org>/g.test(s)\<close>: a match may start anywhere\<close>
  "sentinelTest [] = False"
| "sentinelTest (c # cs) =
     ((startsWith (c # cs) ''<u-org>''
       \<and> cutAt ''</u-org>'' (drop (length ''<u-org>'') (c # cs)) \<noteq> None)
      \<or> sentinelTest cs)"

function removeTags :: "string \<Rightarrow> string" where
  \<comment> \<open>\<open>s.replace(/<[^>]*>/g, '')\<close>\<close>
  "removeTags [] = []"
| "removeTags (c # cs) =
     (if c = CHR ''<''
      then (case dropWhile (\<lambda>d. d \<noteq> CHR ''>'') cs of
              [] \<Rightarrow> c # removeTags cs
            | d # r \<Rightarrow> removeTags r)
      else c # removeTags cs)"
  by pat_completeness auto
termination
proof (relation "measure length")
  show "wf (measure length)" by simp
next
  fix c :: char and cs d r
  assume "dropWhile (\<lambda>d. d \<noteq> CHR ''>'') cs = d # r"
  then have "length (d # r) \<le> length cs" by (metis length_dropWhile_le)
  then show "(r, c # cs) \<in> measure length" by simp
qed simp_all

subsection \<open>Text parts\<close>

record styles =
  bold :: bool
  italics :: bool
  underline :: bool

record textPart = styles +
  content :: string

definition noStyles :: styles where
  \<comment> \<open>the default \<open>styles = {}\<close>\<close>
  "noStyles = \<lparr>bold = False, italics = False, underline = False\<rparr>"

definition createTextPart :: "string \<Rightarrow> styles \<Rightarrow> textPart" where
  \<comment> \<open>\<open>{ type: 'text', content: content, ...styles }\<close>; the type is always \<open>'text'\<close>\<close>
  "createTextPart c st =
     \<lparr>bold = bold st, italics = italics st, underline = underline st, content = c\<rparr>"

definition newStyles :: "string \<Rightarrow> styles \<Rightarrow> styles" where
  "newStyles tag st =
     st\<lparr>bold := (bold st \<or> tag = ''strong'' \<or> tag = ''b''),
        italics := (italics st \<or> tag = ''em'' \<or> tag = ''i''),
        underline := (underline st \<or> tag = ''u'')\<rparr>"

subsection \<open>processSegments\<close>

text \<open>
  \<open>replaceLoop\<close> is the call \<open>string.replace(regexp, callback)\<close> together with the
  handling of the remaining text; its argument is the string from \<open>lastIndex\<close> on.
\<close>

function processSegments :: "string \<Rightarrow> styles \<Rightarrow> textPart list"
  and replaceLoop :: "string \<Rightarrow> styles \<Rightarrow> textPart list"
where
  "processSegments string st =
     (if string = [] then [createTextPart [] st] else replaceLoop string st)"
| "replaceLoop string st =
     (case firstMatch string of
        None \<Rightarrow> (if string \<noteq> [] then [createTextPart string st] else [])
      | Some (plainText, tag, innerText, rest) \<Rightarrow>
          (if plainText \<noteq> [] then [createTextPart plainText st] else [])
          @ processSegments innerText (newStyles tag st)
          @ replaceLoop rest st)"
  by pat_completeness auto
termination
proof (relation "measure (\<lambda>x. case x of Inl (s, st) \<Rightarrow> 2 * length s + 1
                                        | Inr (s, st) \<Rightarrow> 2 * length s)")
  show "wf (measure (\<lambda>x. case x of Inl (s, st) \<Rightarrow> 2 * length s + 1
                                  | Inr (s, st) \<Rightarrow> 2 * length s))"
    by simp
next
  fix string :: string and st :: styles
  show "(Inr (string, st), Inl (string, st))
      \<in> measure (\<lambda>x. case x of Inl (s, st) \<Rightarrow> 2 * length s + 1 | Inr (s, st) \<Rightarrow> 2 * length s)"
    by simp
next
  fix string :: string and st :: styles and x2 plainText y tag ya innerText rest
  assume "firstMatch string = Some x2" "(plainText, y) = x2" "(tag, ya) = y"
    "(innerText, rest) = ya"
  then have "firstMatch string = Some (plainText, tag, innerText, rest)" by simp
  from firstMatch_shorter(1) [OF this]
  show "(Inl (innerText, newStyles tag st), Inr (string, st))
      \<in> measure (\<lambda>x. case x of Inl (s, st) \<Rightarrow> 2 * length s + 1 | Inr (s, st) \<Rightarrow> 2 * length s)"
    by simp
next
  fix string :: string and st :: styles and x2 plainText y tag ya innerText rest
  assume "firstMatch string = Some x2" "(plainText, y) = x2" "(tag, ya) = y"
    "(innerText, rest) = ya"
  then have "firstMatch string = Some (plainText, tag, innerText, rest)" by simp
  from firstMatch_shorter(2) [OF this]
  show "(Inr (rest, st), Inr (string, st))
      \<in> measure (\<lambda>x. case x of Inl (s, st) \<Rightarrow> 2 * length s + 1 | Inr (s, st) \<Rightarrow> 2 * length s)"
    by simp
qed

declare processSegments.simps [simp del] replaceLoop.simps [simp del]

subsection \<open>parseStyledString\<close>

text \<open>
  The argument of \<open>parseStyledString\<close> is any value. \<open>Other r\<close> is a value that is not a
  string and whose \<open>toString()\<close> returns \<open>r\<close> (a number, a boolean, an array, an object).
  The entity decoding of \<open>stripTags\<close> is done by the browser's \<open>DOMParser\<close>; it is the
  parameter \<open>decode\<close>, and \<open>id\<close> in the examples, whose texts hold no entity. The
  function returns what it logs and its result.
\<close>

datatype jsInput = Undefined | Null | Str string | Other string

datatype logEntry = Warning jsInput

definition stripTags :: "(string \<Rightarrow> string) \<Rightarrow> string \<Rightarrow> string" where
  "stripTags decode htmlString = (if htmlString = [] then [] else decode (removeTags htmlString))"

definition coerce :: "jsInput \<Rightarrow> logEntry list \<times> (error + string)" where
  \<comment> \<open>\<open>if (typeof inputString !== 'string') { console.log(...);
      inputString = inputString.toString(); }\<close>\<close>
  "coerce inputString =
     (case inputString of
        Str s \<Rightarrow> ([], Inr s)
      | Undefined \<Rightarrow> ([Warning inputString], Inl TypeError)
      | Null \<Rightarrow> ([Warning inputString], Inl TypeError)
      | Other r \<Rightarrow> ([Warning inputString], Inr r))"

definition parseString :: "(string \<Rightarrow> string) \<Rightarrow> string \<Rightarrow> textPart list" where
  \<comment> \<open>\<open>parseStyledString\<close> from the test for the sentinel on\<close>
  "parseString decode inputString =
     processSegments
       (if sentinelTest inputString then stripTags decode inputString else inputString)
       noStyles"

definition parseStyledString ::
  "(string \<Rightarrow> string) \<Rightarrow> jsInput \<Rightarrow> logEntry list \<times> (error + textPart list)" where
  "parseStyledString decode inputString =
     (case coerce inputString of
        (log, Inl e) \<Rightarrow> (log, Inl e)
      | (log, Inr s) \<Rightarrow> (log, Inr (parseString decode s)))"

section \<open>Markup-tree serializer\<close>

subsection \<open>Values and DOM nodes\<close>

text \<open>
  \<open>htmlToDocx\<close> hands its argument to the browser's \<open>DOMParser\<close>; the model starts from
  the parsed tree, the child nodes of \<open>doc.body\<close>. An element carries its \<open>tagName\<close>, its
  attributes in document order and its child nodes; \<open>OtherNode\<close> is a node that is
  neither text nor element (a comment).
\<close>

datatype node =
    TextNode string
  | ElementNode string "(string \<times> string) list" "node list"
  | OtherNode

text \<open>A value held in \<open>properties\<close>: an attribute value or a nested record.\<close>

datatype pval = PStr string | PObj "(string \<times> pval) list"

text \<open>
  What \<open>nodeToObject\<close> returns and stores: \<open>null\<close>, a string, an object or an array. An
  object is the list of its properties in the order of their first assignment.
\<close>

datatype jsv = JNull | JStr string | JObj "(string \<times> jsv) list" | JArr "jsv list"

fun setProp :: "string \<Rightarrow> 'v \<Rightarrow> (string \<times> 'v) list \<Rightarrow> (string \<times> 'v) list" where
  \<comment> \<open>\<open>obj[k] = v\<close>: an existing property keeps its place, a new one goes last\<close>
  "setProp k v [] = [(k, v)]"
| "setProp k v (p # ps) = (if fst p = k then (k, v) # ps else p # setProp k v ps)"

fun ofProp :: "pval \<Rightarrow> jsv" where
  "ofProp (PStr s) = JStr s"
| "ofProp (PObj ps) = JObj (map (\<lambda>(k, v). (k, ofProp v)) ps)"

fun isTruthy :: "jsv \<Rightarrow> bool" where
  \<comment> \<open>the test \<open>if (childObject)\<close>\<close>
  "isTruthy JNull = False"
| "isTruthy (JStr s) = (s \<noteq> [])"
| "isTruthy (JObj ps) = True"
| "isTruthy (JArr xs) = True"

definition isWhite :: "char \<Rightarrow> bool" where
  \<comment> \<open>white space and line terminators below code 256, as \<open>trim\<close> removes them\<close>
  "isWhite c = (of_char c \<in> {9, 10, 11, 12, 13, 32, 160 :: nat})"

definition trim :: "string \<Rightarrow> string" where
  "trim s = rev (dropWhile isWhite (rev (dropWhile isWhite s)))"

definition toLowerChar :: "char \<Rightarrow> char" where
  "toLowerChar c =
     (let n = (of_char c :: nat)
      in if (65 \<le> n \<and> n \<le> 90) \<or> (192 \<le> n \<and> n \<le> 222 \<and> n \<noteq> 215)
         then char_of (n + 32) else c)"

definition toLowerCase :: "string \<Rightarrow> string" where
  "toLowerCase s = map toLowerChar s"

definition replaceFirst :: "string \<Rightarrow> string \<Rightarrow> string \<Rightarrow> string" where
  \<comment> \<open>\<open>s.replace(pat, rep)\<close> with a string pattern: the first occurrence only\<close>
  "replaceFirst s pat rep = (case cutAt pat s of None \<Rightarrow> s | Some (b, a) \<Rightarrow> b @ rep @ a)"

subsection \<open>parseProperties\<close>

text \<open>
  The \<open>switch\<close> of \<open>parseProperties\<close>, one row for each \<open>case\<close> that stores \<open>attr.value\<close>:
  the attribute name and the property path it assigns. The case \<open>data-underline\<close>, which
  stores an empty record, is apart.
\<close>

definition translationTable :: "(string \<times> string list) list" where
  "translationTable =
    [(''data-positionaltab-alignment'', [''positionalTab'', ''alignment'']),
     (''data-positionaltab-leader'', [''positionalTab'', ''leader'']),
     (''data-positionaltab-relativeto'', [''positionalTab'', ''relativeTo'']),
     (''data-spacing-before'', [''spacing'', ''before'']),
     (''data-spacing-after'', [''spacing'', ''after'']),
     (''data-transformation-width'', [''transformation'', ''width'']),
     (''data-transformation-height'', [''transformation'', ''height'']),
     (''data-bullet-level'', [''bullet'', ''level'']),
     (''data-numbering-reference'', [''numbering'', ''reference'']),
     (''data-numbering-level'', [''numbering'', ''level'']),
     (''data-numbering-instance'', [''numbering'', ''instance'']),
     (''data-alttext-title'', [''altText'', ''title'']),
     (''data-alttext-description'', [''altText'', ''description'']),
     (''data-alttext-name'', [''altText'', ''name'']),
     (''data-width-size'', [''width'', ''size'']),
     (''data-width-type'', [''width'', ''type'']),
     (''data-margins-top'', [''margins'', ''top'']),
     (''data-margins-bottom'', [''margins'', ''bottom'']),
     (''data-margins-left'', [''margins'', ''left'']),
     (''data-margins-right'', [''margins'', ''right'']),
     (''data-borders-top-style'', [''borders'', ''top'', ''style'']),
     (''data-borders-top-size'', [''borders'', ''top'', ''size'']),
     (''data-borders-top-color'', [''borders'', ''top'', ''color'']),
     (''data-borders-bottom-style'', [''borders'', ''bottom'', ''style'']),
     (''data-borders-bottom-size'', [''borders'', ''bottom'', ''size'']),
     (''data-borders-bottom-color'', [''borders'', ''bottom'', ''color'']),
     (''data-borders-left-style'', [''borders'', ''left'', ''style'']),
     (''data-borders-left-size'', [''borders'', ''left'', ''size'']),
     (''data-borders-left-color'', [''borders'', ''left'', ''color'']),
     (''data-borders-right-style'', [''borders'', ''right'', ''style'']),
     (''data-borders-right-size'', [''borders'', ''right'', ''size'']),
     (''data-borders-right-color'', [''borders'', ''right'', ''color'']),
     (''data-image-type'', [''imageType'']),
     (''data-floating-horizontalposition-align'', [''floating'', ''horizontalPosition'', ''align'']),
     (''data-floating-verticalposition-align'', [''floating'', ''verticalPosition'', ''align'']),
     (''data-floating-verticalposition-relative'',
        [''floating'', ''verticalPosition'', ''relative''])]"

definition orNew :: "pval option \<Rightarrow> pval" where
  \<comment> \<open>\<open>x || {}\<close>: an absent property and the empty string give a new record\<close>
  "orNew x = (case x of None \<Rightarrow> PObj [] | Some (PStr s) \<Rightarrow> if s = [] then PObj [] else PStr s
              | Some (PObj sub) \<Rightarrow> PObj sub)"

fun assignPath :: "string list \<Rightarrow> pval \<Rightarrow> (string \<times> pval) list \<Rightarrow> error + (string \<times> pval) list" where
  \<comment> \<open>\<open>o.k = o.k || {}; ...; o.k.f = x\<close> along a path; a string on the way throws\<close>
  "assignPath [] x ps = Inr ps"
| "assignPath [k] x ps = Inr (setProp k x ps)"
| "assignPath (k # ks) x ps =
     (case orNew (map_of ps k) of
        PStr s \<Rightarrow> Inl TypeError
      | PObj sub \<Rightarrow>
          (case assignPath ks x sub of
             Inl e \<Rightarrow> Inl e
           | Inr sub' \<Rightarrow> Inr (setProp k (PObj sub') ps)))"

definition assignFlat :: "string \<Rightarrow> pval \<Rightarrow> (string \<times> pval) list \<Rightarrow> (string \<times> pval) list" where
  \<comment> \<open>\<open>properties[key] = attr.value\<close>; the key \<open>__proto__\<close> reaches the prototype setter,
      which ignores a string\<close>
  "assignFlat key x ps = (if key = ''__proto__'' then ps else setProp key x ps)"

definition isDataAttr :: "string \<Rightarrow> bool" where
  \<comment> \<open>\<open>attr.name.startsWith('data-') && attr.name !== 'data-type'\<close>\<close>
  "isDataAttr name = (startsWith name ''data-'' \<and> name \<noteq> ''data-type'')"

definition applyAttr :: "string \<times> string \<Rightarrow> (string \<times> pval) list \<Rightarrow> error + (string \<times> pval) list" where
  \<comment> \<open>the body of the loop over the attributes\<close>
  "applyAttr attr ps =
     (let name = fst attr; value = snd attr
      in if isDataAttr name then
           (if name = ''data-underline'' then assignPath [''underline''] (PObj []) ps
            else (case map_of translationTable name of
                    Some path \<Rightarrow> assignPath path (PStr value) ps
                  | None \<Rightarrow> Inr (assignFlat (replaceFirst name ''data-'' []) (PStr value) ps)))
         else Inr ps)"

fun parseFrom :: "(string \<times> string) list \<Rightarrow> (string \<times> pval) list \<Rightarrow> error + (string \<times> pval) list" where
  "parseFrom [] ps = Inr ps"
| "parseFrom (attr # attributes) ps =
     (case applyAttr attr ps of Inl e \<Rightarrow> Inl e | Inr ps' \<Rightarrow> parseFrom attributes ps')"

definition parseProperties :: "(string \<times> string) list \<Rightarrow> error + (string \<times> pval) list" where
  "parseProperties attributes = parseFrom attributes []"

fun getPath :: "string list \<Rightarrow> (string \<times> pval) list \<Rightarrow> pval option" where
  \<comment> \<open>reading \<open>properties.a.b.c\<close>; \<open>None\<close> is \<open>undefined\<close>\<close>
  "getPath [] ps = None"
| "getPath [k] ps = map_of ps k"
| "getPath (k # ks) ps = (case map_of ps k of Some (PObj sub) \<Rightarrow> getPath ks sub | _ \<Rightarrow> None)"

subsection \<open>nodeToObject and htmlToDocx\<close>

definition elementType :: "string \<Rightarrow> (string \<times> string) list \<Rightarrow> string" where
  \<comment> \<open>\<open>node.getAttribute('data-type') || node.tagName.toLowerCase()\<close>\<close>
  "elementType tagName attributes =
     (case map_of attributes ''data-type'' of
        None \<Rightarrow> toLowerCase tagName
      | Some t \<Rightarrow> if t \<noteq> [] then t else toLowerCase tagName)"

definition textObject :: "string \<Rightarrow> jsv" where
  \<comment> \<open>\<open>{ type: 'text', content: node.nodeValue }\<close>\<close>
  "textObject v = JObj [(''type'', JStr ''text''), (''content'', JStr v)]"

definition spreadObject :: "string \<Rightarrow> (string \<times> pval) list \<Rightarrow> (string \<times> jsv) list" where
  \<comment> \<open>\<open>{ type, ...properties }\<close>\<close>
  "spreadObject type props =
     foldl (\<lambda>obj (k, v). setProp k (ofProp v) obj) [(''type'', JStr type)] props"

definition contentOf :: "jsv \<Rightarrow> string" where
  \<comment> \<open>\<open>child.content\<close> as \<open>join\<close> prints it: an absent content is the empty string
      (the content of a reduced node is a string when it has one)\<close>
  "contentOf child =
     (case child of
        JObj ps \<Rightarrow> (case map_of ps ''content'' of Some (JStr s) \<Rightarrow> s | _ \<Rightarrow> [])
      | _ \<Rightarrow> [])"

definition pushChild :: "jsv \<Rightarrow> jsv list" where
  \<comment> \<open>\<open>if (childObject) children.push(childObject)\<close>, as in the contentWrapper branch\<close>
  "pushChild childObject = (if isTruthy childObject then [childObject] else [])"

definition pushOrSpread :: "jsv \<Rightarrow> jsv list" where
  \<comment> \<open>\<open>if (childObject) { if (Array.isArray(childObject)) children.push(...childObject);
      else children.push(childObject) }\<close>\<close>
  "pushOrSpread childObject =
     (if isTruthy childObject
      then (case childObject of JArr xs \<Rightarrow> xs | _ \<Rightarrow> [childObject])
      else [])"

fun nodeToObject :: "node \<Rightarrow> error + jsv"
  and wrapperChildren :: "node list \<Rightarrow> error + jsv list"
  and elementChildren :: "node list \<Rightarrow> error + jsv list"
where
  "nodeToObject (TextNode nodeValue) =
     Inr (if trim nodeValue \<noteq> [] then textObject nodeValue else JNull)"
| "nodeToObject (ElementNode tagName attributes childNodes) =
     (let type = elementType tagName attributes
      in if type = ''emptyLine'' then Inr JNull
         else if type = ''contentWrapper'' then
           (case wrapperChildren childNodes of
              Inl e \<Rightarrow> Inl e
            | Inr children \<Rightarrow> Inr (JArr children))
         else
           (case parseProperties attributes of
              Inl e \<Rightarrow> Inl e
            | Inr props \<Rightarrow>
                (case elementChildren childNodes of
                   Inl e \<Rightarrow> Inl e
                 | Inr children \<Rightarrow>
                     (let obj = spreadObject type props
                      in Inr (JObj
                           (if type = ''text''
                            then setProp ''content'' (JStr (concat (map contentOf children))) obj
                            else if children \<noteq> []
                            then setProp ''children'' (JArr children) obj
                            else obj))))))"
| "nodeToObject OtherNode = Inr JNull"
| "wrapperChildren [] = Inr []"
| "wrapperChildren (child # rest) =
     (case nodeToObject child of
        Inl e \<Rightarrow> Inl e
      | Inr childObject \<Rightarrow>
          (case wrapperChildren rest of
             Inl e \<Rightarrow> Inl e
           | Inr children \<Rightarrow> Inr (pushChild childObject @ children)))"
| "elementChildren [] = Inr []"
| "elementChildren (child # rest) =
     (case nodeToObject child of
        Inl e \<Rightarrow> Inl e
      | Inr childObject \<Rightarrow>
          (case elementChildren rest of
             Inl e \<Rightarrow> Inl e
           | Inr children \<Rightarrow> Inr (pushOrSpread childObject @ children)))"

definition htmlToDocx :: "node list \<Rightarrow> error + jsv list" where
  \<comment> \<open>the argument is \<open>doc.body.childNodes\<close>; the loop is the one of the element branch\<close>
  "htmlToDocx bodyChildNodes = elementChildren bodyChildNodes"

section \<open>Notions used in the statements and their proofs\<close>

subsection \<open>Example blocks\<close>

definition emptyBody :: body where
  "emptyBody = \<lparr>b_paragraphs = None, b_imgs = None, b_links = None, b_lists = None\<rparr>"

definition bodyOnly :: "body \<Rightarrow> string option \<Rightarrow> block" where
  \<comment> \<open>a block with a body, an optional top-level banner, no header and no items\<close>
  "bodyOnly b bn =
     \<lparr>main = Some \<lparr>m_header = None, m_body = Some b, m_banner = bn\<rparr>, blockItems = []\<rparr>"

definition listsClean :: "listEntry list list \<Rightarrow> bool" where
  \<comment> \<open>no list entry holds an empty paragraph\<close>
  "listsClean ls = (\<forall>l \<in> set ls. \<forall>e \<in> set l. \<forall>p \<in> set (le_paragraphs e). truthy p)"

subsection \<open>Property paths\<close>

text \<open>
  Two property paths are comparable when one is a prefix of the other: an assignment at
  one of them can then replace what is stored at the other.
\<close>

fun comparable :: "string list \<Rightarrow> string list \<Rightarrow> bool" where
  "comparable [] q = True"
| "comparable (a # p) [] = True"
| "comparable (a # p) (b # q) = (a = b \<and> comparable p q)"

definition leafVal :: "pval \<Rightarrow> bool" where
  \<comment> \<open>what one attribute stores: a string or the empty record\<close>
  "leafVal x = (case x of PStr v \<Rightarrow> True | PObj sub \<Rightarrow> sub = [])"

definition fresh :: "string list \<Rightarrow> (string \<times> pval) list \<Rightarrow> bool" where
  \<comment> \<open>no string is stored at a path comparable with \<open>q\<close>\<close>
  "fresh q ps = (\<forall>r s. getPath r ps = Some (PStr s) \<longrightarrow> \<not> comparable r q)"

definition written ::
  "string list \<Rightarrow> pval \<Rightarrow> (string \<times> pval) list \<Rightarrow> (string \<times> pval) list \<Rightarrow> bool" where
  \<comment> \<open>\<open>ps'\<close> is \<open>ps\<close> with \<open>x\<close> stored at \<open>q\<close> and nothing else disturbed\<close>
  "written q x ps ps' =
     (getPath q ps' = Some x
      \<and> (\<forall>r. \<not> comparable r q \<longrightarrow> getPath r ps' = getPath r ps)
      \<and> (\<forall>r s. getPath r ps' = Some (PStr s) \<longrightarrow>
            r = q \<or> (\<not> comparable r q \<and> getPath r ps = Some (PStr s))))"

definition flatKey :: "string \<Rightarrow> string" where
  \<comment> \<open>the key of the \<open>default\<close> case: \<open>attr.name.replace('data-', '')\<close>\<close>
  "flatKey name = replaceFirst name ''data-'' []"

definition pathOf :: "string \<Rightarrow> string list" where
  \<comment> \<open>where the value of a \<open>data-*\<close> attribute is expected\<close>
  "pathOf name =
     (if name = ''data-underline'' then [''underline'']
      else (case map_of translationTable name of
              Some path \<Rightarrow> path
            | None \<Rightarrow> [flatKey name]))"

definition valueOf :: "string \<times> string \<Rightarrow> pval" where
  "valueOf attr = (if fst attr = ''data-underline'' then PObj [] else PStr (snd attr))"

definition tableHeads :: "(string \<times> string) list \<Rightarrow> string list" where
  \<comment> \<open>the top-level keys written by the attributes of the element that are in the table\<close>
  "tableHeads attrs =
     concat (map (\<lambda>a. case map_of translationTable (fst a) of
                         Some path \<Rightarrow> [hd path]
                       | None \<Rightarrow> []) attrs)"

definition flatOK :: "string list \<Rightarrow> string \<Rightarrow> bool" where
  \<comment> \<open>an attribute outside the table has a flat key that the prototype setter does not
      take and that is none of the top-level keys \<open>hs\<close>\<close>
  "flatOK hs name =
     (name = ''data-underline'' \<or> map_of translationTable name \<noteq> None
      \<or> (flatKey name \<noteq> ''__proto__'' \<and> flatKey name \<notin> set hs))"

definition collisionFree :: "(string \<times> string) list \<Rightarrow> bool" where
  \<comment> \<open>attribute names are distinct, as in a DOM element, and no flat key is \<open>__proto__\<close>
      or the top-level key of a table attribute of the same element\<close>
  "collisionFree attrs =
     (distinct (map fst attrs)
      \<and> list_all (\<lambda>a. isDataAttr (fst a) \<longrightarrow> flatOK (tableHeads attrs) (fst a)) attrs)"

definition admitted :: "string list \<Rightarrow> (string \<times> pval) list \<Rightarrow> string \<times> string \<Rightarrow> bool" where
  \<comment> \<open>the attribute can be applied to the properties \<open>ps\<close> of an element whose table
      attributes write the top-level keys \<open>hs\<close>\<close>
  "admitted hs ps a =
     (isDataAttr (fst a) \<longrightarrow>
        flatOK hs (fst a) \<and> fresh (pathOf (fst a)) ps
        \<and> (\<forall>p. map_of translationTable (fst a) = Some p \<longrightarrow> hd p \<in> set hs))"

subsection \<open>Shape of the output tree\<close>

definition isWrapper :: "node \<Rightarrow> bool" where
  \<comment> \<open>an element that \<open>nodeToObject\<close> treats as a \<open>contentWrapper\<close>\<close>
  "isWrapper n = (case n of ElementNode t a cs \<Rightarrow> elementType t a = ''contentWrapper'' | _ \<Rightarrow> False)"

fun noNestedWrapper :: "node \<Rightarrow> bool" where
  \<comment> \<open>no \<open>contentWrapper\<close> is a child of a \<open>contentWrapper\<close>\<close>
  "noNestedWrapper (ElementNode t a cs) =
     (list_all noNestedWrapper cs
      \<and> (elementType t a = ''contentWrapper'' \<longrightarrow> list_all (\<lambda>c. \<not> isWrapper c) cs))"
| "noNestedWrapper n = True"

inductive single :: "jsv \<Rightarrow> bool" where
  \<comment> \<open>an object whose children, and theirs, are objects: no entry is an array\<close>
  "(\<And>cs c. map_of ps ''children'' = Some (JArr cs) \<Longrightarrow> c \<in> set cs \<Longrightarrow> single c)
     \<Longrightarrow> single (JObj ps)"

fun isArr :: "jsv \<Rightarrow> bool" where
  "isArr (JArr xs) = True"
| "isArr v = False"

inductive unwrapped :: "jsv \<Rightarrow> bool" where
  \<comment> \<open>no object of type \<open>contentWrapper\<close>, in the children and in the arrays among them\<close>
  arr: "(\<And>x. x \<in> set xs \<Longrightarrow> unwrapped x) \<Longrightarrow> unwrapped (JArr xs)"
| obj: "map_of ps ''type'' \<noteq> Some (JStr ''contentWrapper'') \<Longrightarrow>
        (\<And>cs c. map_of ps ''children'' = Some (JArr cs) \<Longrightarrow> c \<in> set cs \<Longrightarrow> unwrapped c)
        \<Longrightarrow> unwrapped (JObj ps)"

subsection \<open>Plain text of a styled string\<close>

text \<open>
  A string of well-nested pairs: text without \<open><\<close>, and pairs \<open><tag>...</tag>\<close>, in
  sequence or one inside another, whose tag is a non-empty word and whose inner text is
  such a string again, with no closing tag of the same name in it.
\<close>

inductive nested :: "string \<Rightarrow> bool" where
  plain: "CHR ''<'' \<notin> set t \<Longrightarrow> nested t"
| pair: "CHR ''<'' \<notin> set t \<Longrightarrow> tag \<noteq> [] \<Longrightarrow> \<forall>c \<in> set tag. isWordChar c \<Longrightarrow>
         nested x \<Longrightarrow> \<not> includes_str x (''</'' @ tag @ ''>'') \<Longrightarrow> nested r \<Longrightarrow>
         nested (t @ ''<'' @ tag @ ''>'' @ x @ ''</'' @ tag @ ''>'' @ r)"

fun noTag :: "string \<Rightarrow> bool" where
  \<comment> \<open>no \<open><\<close> is followed by a \<open>>\<close>: the string holds no tag \<open><...>\<close>\<close>
  "noTag [] = True"
| "noTag (c # cs) = ((c = CHR ''<'' \<longrightarrow> CHR ''>'' \<notin> set cs) \<and> noTag cs)"

function stripPairs :: "string \<Rightarrow> string" where
  \<comment> \<open>the text that the runs of \<open>processSegments\<close> carry: the string without the
      tags of the matches of the regular expression, in the inner texts too\<close>
  "stripPairs s =
     (case firstMatch s of
        None \<Rightarrow> s
      | Some (plainText, tag, innerText, rest) \<Rightarrow> plainText @ stripPairs innerText @ stripPairs rest)"
  by pat_completeness auto
termination
proof (relation "measure length")
  show "wf (measure length)" by simp
next
  fix s :: string and x2 plainText y tag ya innerText rest
  assume "firstMatch s = Some x2" "(plainText, y) = x2" "(tag, ya) = y" "(innerText, rest) = ya"
  then have "firstMatch s = Some (plainText, tag, innerText, rest)" by simp
  from firstMatch_shorter(1) [OF this] show "(innerText, s) \<in> measure length" by simp
next
  fix s :: string and x2 plainText y tag ya innerText rest
  assume "firstMatch s = Some x2" "(plainText, y) = x2" "(tag, ya) = y" "(innerText, rest) = ya"
  then have "firstMatch s = Some (plainText, tag, innerText, rest)" by simp
  from firstMatch_shorter(2) [OF this] show "(rest, s) \<in> measure length" by simp
qed

declare stripPairs.simps [simp del]

definition markupFree :: "string \<Rightarrow> bool" where
  \<comment> \<open>no pair \<open><tag>...</tag>\<close> for the parser and no pair \<open><u-org>...</u-org>\<close>\<close>
  "markupFree s = (firstMatch s = None \<and> \<not> sentinelTest s)"

definition textOf :: "textPart list \<Rightarrow> string" where
  \<comment> \<open>the contents of the runs, concatenated in order\<close>
  "textOf parts = concat (map content parts)"

section \<open>Properties of the block-content normalizer\<close>

subsection \<open>Splitting\<close>

lemmas block_defs =
  parseBlockContent_def bodyField_def bodyOf_def orEmpty_def headerField_def headerOf_def
  mainBanner_def bannerOf_def updateBody_def filterBodyLists_def pushImage_def
  filterLists_def filterEntry_def

lemmas item_defs =
  splitItemParagraphs_def filterItemLists_def filterItemParagraphs_def moveBanner_def

lemma split_a_br_b: "split_str ''a<br>b'' br = [''a'', ''b'']"
  by (simp add: split_str_def br_def splitNonEmpty.simps startsWith_def)

lemma split_a_br: "split_str ''a<br>'' br = [''a'', '''']"
  by (simp add: split_str_def br_def splitNonEmpty.simps startsWith_def)

lemma includes_br_examples:
  "includes_str ''a<br>b'' br" "includes_str ''a<br>'' br" "\<not> includes_str '''' br"
  by (simp_all add: includes_str_def br_def startsWith_def)

lemma filterLists_clean: "listsClean ls \<Longrightarrow> filterLists ls = ls"
proof -
  assume c: "listsClean ls"
  have "\<And>l. l \<in> set ls \<Longrightarrow> map filterEntry l = l"
  proof -
    fix l assume "l \<in> set ls"
    with c have "\<And>e. e \<in> set l \<Longrightarrow> filterEntry e = e"
      by (simp add: listsClean_def filterEntry_def)
    then show "map filterEntry l = l" by (simp add: map_idI)
  qed
  then show ?thesis by (simp add: filterLists_def map_idI)
qed

lemma startsWith_append:
  assumes "startsWith s d"
  shows "startsWith (s @ t) d"
proof -
  from assms have "length d \<le> length s" by (rule startsWith_length)
  moreover from assms have "take (length d) s = d" by (simp add: startsWith_def)
  ultimately show ?thesis by (simp add: startsWith_def)
qed

lemma cutAt_before_none:
  "d \<noteq> [] \<Longrightarrow> cutAt d s = Some (b, a) \<Longrightarrow> cutAt d b = None"
proof (induction s arbitrary: b)
  case Nil
  then show ?case by simp
next
  case (Cons c cs)
  show ?case
  proof (cases "startsWith (c # cs) d")
    case True
    with Cons.prems show ?thesis by simp
  next
    case False
    with Cons.prems obtain b' where c: "cutAt d cs = Some (b', a)" and b: "b = c # b'"
      by (auto split: option.splits)
    from cutAt_decomp [OF c] have "c # cs = (c # b') @ d @ a" by simp
    with False have "\<not> startsWith (c # b') d" using startsWith_append by metis
    with Cons.IH [OF Cons.prems(1) c] b show ?thesis by simp
  qed
qed

lemma splitNonEmpty_pieces:
  "d \<noteq> [] \<Longrightarrow> list_all (\<lambda>p. \<not> includes_str p d) (splitNonEmpty d s)"
proof (induction d s rule: splitNonEmpty.induct)
  case (1 d s)
  show ?case
  proof (cases "cutAt d s")
    case None
    with "1.prems" show ?thesis by (simp add: splitNonEmpty.simps [of d s] includes_str_def)
  next
    case (Some m)
    obtain b a where m: "m = (b, a)" by (cases m)
    from Some m have c: "cutAt d s = Some (b, a)" by simp
    from "1.IH" [OF "1.prems" c refl "1.prems"]
    have "list_all (\<lambda>p. \<not> includes_str p d) (splitNonEmpty d a)" .
    moreover from cutAt_before_none [OF "1.prems" c] have "\<not> includes_str b d"
      by (simp add: includes_str_def)
    ultimately show ?thesis using c "1.prems" by (simp add: splitNonEmpty.simps [of d s])
  qed
qed

lemma splitByBrTag_pieces:
  "list_all (\<lambda>p. \<not> includes_str p br) (splitByBrTag xs br)"
proof (induction xs)
  case Nil
  then show ?case by simp
next
  case (Cons x xs)
  have "br \<noteq> []" by (simp add: br_def)
  from splitNonEmpty_pieces [OF this, of x] Cons \<open>br \<noteq> []\<close> show ?case
    by (simp add: split_str_def)
qed

lemma splitItemParagraphs_pieces:
  "list_all (\<lambda>it. list_all (\<lambda>p. \<not> includes_str p br) (it_paragraphs it))
     (map splitItemParagraphs its)"
  by (induction its) (simp_all add: splitItemParagraphs_def splitByBrTag_pieces)

subsection \<open>The claims on the normalizer\<close>

text \<open>
  Claim C10. The filter for empty entries runs before the split on \<open><br>\<close>, so the
  result can hold an empty paragraph: the paragraph list \<open>["a<br>"]\<close> passes the filter
  unchanged and the returned paragraphs are \<open>["a", ""]\<close>.
\<close>

theorem parseBlockContent_empty_paragraph_after_split:
  "filter truthy [''a<br>''] = [''a<br>''] \<and>
   paragraphs (snd (parseBlockContent
      (bodyOnly (emptyBody\<lparr>b_paragraphs := Some [''a<br>'']\<rparr>) None))) = [''a'', '''']"
  by (simp add: block_defs bodyOnly_def emptyBody_def truthy_def Let_def split_a_br
      includes_br_examples)

text \<open>
  Claim C9, as stated: every paragraph sequence is filtered and then each remaining
  paragraph is split on \<open><br>\<close>. It fails for the paragraphs of a list entry: the entry
  \<open>["a<br>b"]\<close> under \<open>body.lists\<close> is returned as it is, where filter and split would
  give \<open>["a", "b"]\<close>.
\<close>

theorem parseBlockContent_list_entries_not_split:
  "map (map le_paragraphs) (listsOut (snd (parseBlockContent
      (bodyOnly (emptyBody\<lparr>b_lists := Some [[\<lparr>le_paragraphs = [''a<br>b'']\<rparr>]]\<rparr>) None))))
     = [[[''a<br>b'']]]
   \<and> splitByBrTag (filter truthy [''a<br>b'']) br = [''a'', ''b'']"
  by (simp add: block_defs bodyOnly_def emptyBody_def truthy_def Let_def split_a_br_b
      includes_br_examples)

text \<open>
  Claim C9, amended. The block-level paragraphs and the paragraphs of every item are
  filtered for empty entries and then split on \<open><br>\<close>; the paragraphs of the list
  entries, under the body and under every item, are filtered only. No returned
  block-level or item paragraph contains \<open><br>\<close>. On a block whose paragraph list is
  \<open>["a<br>b", ""]\<close> the returned paragraphs are \<open>["a", "b"]\<close>.
\<close>

theorem parseBlockContent_filter_then_split:
  "paragraphs (snd (parseBlockContent B))
     = splitByBrTag (filter truthy (bodyField B b_paragraphs)) br
   \<and> map it_paragraphs (items (snd (parseBlockContent B)))
     = map (\<lambda>it. splitByBrTag (filter truthy (it_paragraphs it)) br) (blockItems B)
   \<and> map (map le_paragraphs) (listsOut (snd (parseBlockContent B)))
     = map (map (\<lambda>e. filter truthy (le_paragraphs e))) (bodyField B b_lists)
   \<and> map (\<lambda>it. map (map le_paragraphs) (orEmpty (it_lists it))) (items (snd (parseBlockContent B)))
     = map (\<lambda>it. map (map (\<lambda>e. filter truthy (le_paragraphs e))) (orEmpty (it_lists it)))
         (blockItems B)
   \<and> list_all (\<lambda>p. \<not> includes_str p br) (paragraphs (snd (parseBlockContent B)))
   \<and> list_all (\<lambda>it. list_all (\<lambda>p. \<not> includes_str p br) (it_paragraphs it))
        (items (snd (parseBlockContent B)))
   \<and> (bodyField B b_paragraphs = [''a<br>b'', ''''] \<longrightarrow>
        paragraphs (snd (parseBlockContent B)) = [''a'', ''b''])"
  apply (intro conjI)
  subgoal by (simp add: parseBlockContent_def Let_def split: option.splits prod.splits)
  subgoal by (simp add: parseBlockContent_def Let_def item_defs split: option.splits prod.splits)
  subgoal by (simp add: parseBlockContent_def Let_def filterLists_def filterEntry_def
        split: option.splits prod.splits)
  subgoal by (simp add: parseBlockContent_def Let_def item_defs orEmpty_def filterLists_def
        filterEntry_def split: option.splits prod.splits)
  subgoal by (simp add: parseBlockContent_def Let_def splitByBrTag_pieces
        split: option.splits prod.splits)
  subgoal by (simp add: parseBlockContent_def Let_def splitItemParagraphs_pieces
        del: map_map split: option.splits prod.splits)
  subgoal by (simp add: parseBlockContent_def Let_def truthy_def split_a_br_b
        includes_br_examples split: option.splits prod.splits)
  done

theorem parseBlockContent_filter_then_split_witness:
  "bodyField (bodyOnly (emptyBody\<lparr>b_paragraphs := Some [''a<br>b'', '''']\<rparr>) None) b_paragraphs
     = [''a<br>b'', '''']
   \<and> paragraphs (snd (parseBlockContent
        (bodyOnly (emptyBody\<lparr>b_paragraphs := Some [''a<br>b'', '''']\<rparr>) None))) = [''a'', ''b'']"
proof -
  have h: "bodyField (bodyOnly (emptyBody\<lparr>b_paragraphs := Some [''a<br>b'', '''']\<rparr>) None)
      b_paragraphs = [''a<br>b'', '''']"
    by (simp add: bodyField_def bodyOf_def bodyOnly_def emptyBody_def orEmpty_def)
  from parseBlockContent_filter_then_split
    [of "bodyOnly (emptyBody\<lparr>b_paragraphs := Some [''a<br>b'', '''']\<rparr>) None"] h
  show ?thesis by blast
qed

text \<open>
  Claim C4, as stated: the call leaves the block as it was, the banner of the items
  apart; in particular \<open>block.main.body.imgs\<close> and the paragraph arrays under
  \<open>block.main.body.lists\<close>. It fails on a block with a top-level banner, an image and a
  list entry holding an empty paragraph: the body before the call and the body after it
  differ, the banner is in \<open>body.imgs\<close> and the entry has lost its empty paragraph.
\<close>

theorem parseBlockContent_mutates_body:
  "bodyOf (bodyOnly (emptyBody\<lparr>b_imgs := Some [''i.png''],
                                b_lists := Some [[\<lparr>le_paragraphs = [''p'', '''']\<rparr>]]\<rparr>)
                     (Some ''b.png''))
     = Some (emptyBody\<lparr>b_imgs := Some [''i.png''],
                        b_lists := Some [[\<lparr>le_paragraphs = [''p'', '''']\<rparr>]]\<rparr>)
   \<and> bodyOf (fst (parseBlockContent
        (bodyOnly (emptyBody\<lparr>b_imgs := Some [''i.png''],
                             b_lists := Some [[\<lparr>le_paragraphs = [''p'', '''']\<rparr>]]\<rparr>)
                  (Some ''b.png''))))
     = Some (emptyBody\<lparr>b_imgs := Some [''i.png'', ''b.png''],
                        b_lists := Some [[\<lparr>le_paragraphs = [''p'']\<rparr>]]\<rparr>)"
  by (simp add: block_defs bodyOnly_def emptyBody_def truthy_def Let_def)

text \<open>
  Claim C4, amended. The normalizer works in place on the objects of the block. It leaves
  the header, the top-level banner, \<open>body.paragraphs\<close> and \<open>body.links\<close> as they were,
  and \<open>body.imgs\<close> too when the block has no top-level banner. It replaces the paragraphs
  of every list entry under \<open>body.lists\<close> by the filtered array, so that \<open>block.main\<close> is
  unchanged when there is no top-level banner and no list entry holds an empty
  paragraph. On each item it moves a banner to the end of the item's images, replaces
  the paragraphs by the filtered and split array, and replaces the paragraphs of the
  item's list entries by the filtered arrays.
\<close>

theorem parseBlockContent_frame:
  "headerOf (fst (parseBlockContent B)) = headerOf B
   \<and> mainBanner (fst (parseBlockContent B)) = mainBanner B
   \<and> map_option b_paragraphs (bodyOf (fst (parseBlockContent B)))
       = map_option b_paragraphs (bodyOf B)
   \<and> map_option b_links (bodyOf (fst (parseBlockContent B))) = map_option b_links (bodyOf B)
   \<and> map_option b_lists (bodyOf (fst (parseBlockContent B)))
       = map_option (\<lambda>b. map_option filterLists (b_lists b)) (bodyOf B)
   \<and> (bannerOf (mainBanner B) = None \<longrightarrow>
        map_option b_imgs (bodyOf (fst (parseBlockContent B))) = map_option b_imgs (bodyOf B))
   \<and> (bannerOf (mainBanner B) = None \<and> listsClean (bodyField B b_lists) \<longrightarrow>
        main (fst (parseBlockContent B)) = main B)
   \<and> map (\<lambda>it. (it_banner it, it_images it)) (blockItems (fst (parseBlockContent B)))
       = map (\<lambda>it. case bannerOf (it_banner it) of
                      None \<Rightarrow> (it_banner it, it_images it)
                    | Some b \<Rightarrow> (None, it_images it @ [b])) (blockItems B)
   \<and> map it_paragraphs (blockItems (fst (parseBlockContent B)))
       = map (\<lambda>it. splitByBrTag (filter truthy (it_paragraphs it)) br) (blockItems B)
   \<and> map it_lists (blockItems (fst (parseBlockContent B)))
       = map (\<lambda>it. map_option filterLists (it_lists it)) (blockItems B)"
  apply (intro conjI)
  subgoal by (simp add: parseBlockContent_def Let_def headerOf_def updateBody_def
        split: option.splits prod.splits)
  subgoal by (simp add: parseBlockContent_def Let_def mainBanner_def updateBody_def
        split: option.splits prod.splits)
  subgoal by (simp add: parseBlockContent_def Let_def bodyOf_def updateBody_def
        filterBodyLists_def pushImage_def split: option.splits prod.splits)
  subgoal by (simp add: parseBlockContent_def Let_def bodyOf_def updateBody_def
        filterBodyLists_def pushImage_def split: option.splits prod.splits)
  subgoal by (simp add: parseBlockContent_def Let_def bodyOf_def updateBody_def
        filterBodyLists_def pushImage_def split: option.splits prod.splits)
  subgoal by (simp add: parseBlockContent_def Let_def bodyOf_def updateBody_def
        filterBodyLists_def pushImage_def split: option.splits prod.splits)
  subgoal by (auto simp add: parseBlockContent_def Let_def bodyOf_def bodyField_def orEmpty_def
        updateBody_def filterBodyLists_def filterLists_clean split: option.splits prod.splits)
  subgoal by (simp add: parseBlockContent_def Let_def item_defs split: option.splits prod.splits)
  subgoal by (simp add: parseBlockContent_def Let_def item_defs split: option.splits prod.splits)
  subgoal by (simp add: parseBlockContent_def Let_def item_defs filterLists_def
        split: option.splits prod.splits)
  done

theorem parseBlockContent_frame_witness:
  "bannerOf (mainBanner (bodyOnly (emptyBody\<lparr>b_imgs := Some [''i.png''],
        b_lists := Some [[\<lparr>le_paragraphs = [''p'']\<rparr>]]\<rparr>) None)) = None
   \<and> listsClean (bodyField (bodyOnly (emptyBody\<lparr>b_imgs := Some [''i.png''],
        b_lists := Some [[\<lparr>le_paragraphs = [''p'']\<rparr>]]\<rparr>) None) b_lists)
   \<and> main (fst (parseBlockContent (bodyOnly (emptyBody\<lparr>b_imgs := Some [''i.png''],
        b_lists := Some [[\<lparr>le_paragraphs = [''p'']\<rparr>]]\<rparr>) None)))
     = main (bodyOnly (emptyBody\<lparr>b_imgs := Some [''i.png''],
        b_lists := Some [[\<lparr>le_paragraphs = [''p'']\<rparr>]]\<rparr>) None)"
proof -
  let ?B = "bodyOnly (emptyBody\<lparr>b_imgs := Some [''i.png''],
        b_lists := Some [[\<lparr>le_paragraphs = [''p'']\<rparr>]]\<rparr>) None"
  have h1: "bannerOf (mainBanner ?B) = None"
    by (simp add: bannerOf_def mainBanner_def bodyOnly_def)
  have h2: "listsClean (bodyField ?B b_lists)"
    by (simp add: listsClean_def bodyField_def bodyOf_def bodyOnly_def emptyBody_def
        orEmpty_def truthy_def)
  from parseBlockContent_frame [of ?B] h1 h2 show ?thesis by blast
qed

section \<open>Properties of the styled-string parser\<close>

subsection \<open>Text of the runs\<close>

lemma stripPairs_Nil: "stripPairs [] = []"
  by (simp add: stripPairs.simps)

lemma content_createTextPart: "content (createTextPart c st) = c"
  by (simp add: createTextPart_def)

lemma textOf_segments:
  "textOf (processSegments s st) = stripPairs s"
  "textOf (replaceLoop s st) = stripPairs s"
proof (induction s st and s st rule: processSegments_replaceLoop.induct)
  case (1 string st)
  then show ?case
    by (cases "string = []")
      (simp_all add: processSegments.simps textOf_def stripPairs_Nil content_createTextPart)
next
  case (2 string st)
  show ?case
  proof (cases "firstMatch string")
    case None
    then show ?thesis
      by (simp add: replaceLoop.simps [of string] stripPairs.simps [of string] textOf_def
          content_createTextPart)
  next
    case (Some m)
    obtain plainText tag innerText rest where m: "m = (plainText, tag, innerText, rest)"
      by (cases m) auto
    from 2 [OF Some [unfolded m] refl refl refl]
    have "textOf (processSegments innerText (newStyles tag st)) = stripPairs innerText"
      and "textOf (replaceLoop rest st) = stripPairs rest" by simp_all
    with Some m show ?thesis
      by (simp add: replaceLoop.simps [of string] stripPairs.simps [of string] textOf_def
          content_createTextPart)
  qed
qed

lemma stripPairs_none: "firstMatch s = None \<Longrightarrow> stripPairs s = s"
  by (simp add: stripPairs.simps [of s])

lemma removeTags_plain_prefix:
  "CHR ''<'' \<notin> set a \<Longrightarrow> removeTags (a @ z) = a @ removeTags z"
  by (induction a) auto

lemma removeTags_tag:
  assumes "CHR ''>'' \<notin> set t"
  shows "removeTags (''<'' @ t @ ''>'' @ y) = removeTags y"
proof -
  from assms have "dropWhile (\<lambda>d. d \<noteq> CHR ''>'') (t @ CHR ''>'' # y) = CHR ''>'' # y"
    by (induction t) auto
  then show ?thesis by simp
qed

lemma wordChar_not_gt: "isWordChar c \<Longrightarrow> c \<noteq> CHR ''>'' \<and> c \<noteq> CHR ''<''"
  by (auto simp: isWordChar_def)

lemma no_lt_markupFree: "CHR ''<'' \<notin> set s \<Longrightarrow> markupFree s"
proof -
  assume n: "CHR ''<'' \<notin> set s"
  then have "firstMatch s = None"
    by (induction s) (auto simp: matchAt_def)
  moreover from n have "\<not> sentinelTest s"
    by (induction s) (auto simp: startsWith_def)
  ultimately show ?thesis by (simp add: markupFree_def)
qed

lemma cutAt_finds: "cutAt d (x @ d @ y) \<noteq> None"
proof (induction x)
  case Nil
  show ?case
  proof (cases "d @ y")
    case Nil
    then show ?thesis by simp
  next
    case (Cons c cs)
    have "startsWith (d @ y) d" by (simp add: startsWith_def)
    with Cons show ?thesis by simp
  qed
next
  case (Cons c x)
  then obtain b a where "cutAt d (x @ d @ y) = Some (b, a)" by auto
  then show ?case by simp
qed

lemma sentinelTest_wrapped: "sentinelTest (''<u-org>'' @ x @ ''</u-org>'')"
  using cutAt_finds [of "''</u-org>''" x "[]"] by (simp add: startsWith_def)

subsection \<open>Well-nested pairs\<close>

text \<open>
  On a string of well-nested pairs followed by a text without tag, the regular
  expression finds each pair as written, the test for the sentinel fails, and the
  text of the runs is the string without its tags.
\<close>

lemma noTag_removeTags: "noTag u \<Longrightarrow> removeTags u = u"
proof (induction u)
  case Nil
  then show ?case by simp
next
  case (Cons c cs)
  show ?case
  proof (cases "c = CHR ''<''")
    case True
    with Cons.prems have "CHR ''>'' \<notin> set cs" by simp
    then have "dropWhile (\<lambda>d. d \<noteq> CHR ''>'') cs = []" by (induction cs) auto
    with True Cons show ?thesis by (simp del: dropWhile_eq_Nil_conv)
  next
    case False
    with Cons show ?thesis by simp
  qed
qed

lemma noTag_matchAt: "noTag u \<Longrightarrow> matchAt u = None"
proof (cases u)
  case Nil
  then show ?thesis by (simp add: matchAt_def)
next
  case (Cons c cs)
  assume n: "noTag u"
  show ?thesis
  proof (cases "c = CHR ''<''")
    case False
    with Cons show ?thesis by (simp add: matchAt_def)
  next
    case True
    with n Cons have g: "CHR ''>'' \<notin> set cs" by simp
    have "\<And>r2. dropWhile isWordChar cs \<noteq> CHR ''>'' # r2"
    proof
      fix r2 assume "dropWhile isWordChar cs = CHR ''>'' # r2"
      then have "CHR ''>'' \<in> set (dropWhile isWordChar cs)" by simp
      then have "CHR ''>'' \<in> set cs" by (rule set_dropWhileD)
      with g show False by simp
    qed
    with Cons True show ?thesis
      by (auto simp: matchAt_def Let_def split: list.splits)
  qed
qed

lemma noTag_firstMatch: "noTag u \<Longrightarrow> firstMatch u = None"
proof (induction u)
  case Nil
  then show ?case by simp
next
  case (Cons c cs)
  from Cons.prems have "noTag cs" by simp
  with Cons.IH have "firstMatch cs = None" by simp
  with noTag_matchAt [OF Cons.prems] show ?case by simp
qed

lemma noTag_append: "CHR ''<'' \<notin> set t \<Longrightarrow> noTag u \<Longrightarrow> noTag (t @ u)"
  by (induction t) auto

lemma noTag_plain: "CHR ''<'' \<notin> set t \<Longrightarrow> noTag t"
  using noTag_append [of t "[]"] by simp

lemma startsWith_Cons: "startsWith (c # s) (d # p) = (c = d \<and> startsWith s p)"
  by (simp add: startsWith_def)

lemma startsWith_straddle:
  assumes "CHR ''<'' \<notin> set e" "startsWith (x @ CHR ''<'' # w) e"
  shows "startsWith x e"
proof (cases "length e \<le> length x")
  case True
  with assms(2) show ?thesis by (simp add: startsWith_def)
next
  case False
  then have "take (length e) (x @ CHR ''<'' # w) = x @ CHR ''<'' # take (length e - Suc (length x)) w"
    by (simp add: take_Cons' Suc_diff_Suc)
  with assms(2) have "e = x @ CHR ''<'' # take (length e - Suc (length x)) w"
    by (simp add: startsWith_def)
  then have "CHR ''<'' \<in> set e" by (metis in_set_conv_decomp)
  with assms(1) show ?thesis by simp
qed

lemma cutAt_first:
  "CHR ''<'' \<notin> set e \<Longrightarrow> \<not> includes_str x (CHR ''<'' # e) \<Longrightarrow>
     cutAt (CHR ''<'' # e) (x @ CHR ''<'' # e @ z) = Some (x, z)"
proof (induction x)
  case Nil
  then show ?case by (simp add: startsWith_def)
next
  case (Cons c x)
  from Cons.prems(2) have ns: "\<not> startsWith (c # x) (CHR ''<'' # e)"
    and ni: "\<not> includes_str x (CHR ''<'' # e)"
    by (auto simp: includes_str_def split: if_splits option.splits)
  have "\<not> startsWith (c # x @ CHR ''<'' # e @ z) (CHR ''<'' # e)"
  proof
    assume "startsWith (c # x @ CHR ''<'' # e @ z) (CHR ''<'' # e)"
    then have c: "c = CHR ''<''" and "startsWith (x @ CHR ''<'' # e @ z) e"
      by (simp_all add: startsWith_Cons)
    from startsWith_straddle [OF Cons.prems(1) this(2)] have "startsWith x e" .
    with c ns show False by (simp add: startsWith_Cons)
  qed
  with Cons.IH [OF Cons.prems(1) ni] show ?case by simp
qed

lemma not_wordChar_gt: "\<not> isWordChar CHR ''>''" "\<not> isWordChar CHR ''<''"
  by (simp_all add: isWordChar_def)

lemma matchAt_pair:
  assumes "tag \<noteq> []" "\<forall>c \<in> set tag. isWordChar c" "\<not> includes_str x (''</'' @ tag @ ''>'')"
  shows "matchAt (''<'' @ tag @ ''>'' @ x @ ''</'' @ tag @ ''>'' @ z) = Some (tag, x, z)"
proof -
  let ?r = "x @ ''</'' @ tag @ ''>'' @ z"
  from assms(2) have tw: "takeWhile isWordChar (tag @ CHR ''>'' # ?r) = tag"
    by (simp add: not_wordChar_gt)
  from assms(2) have dw: "dropWhile isWordChar (tag @ CHR ''>'' # ?r) = CHR ''>'' # ?r"
    by (simp add: not_wordChar_gt)
  from assms(2) have "CHR ''<'' \<notin> set (CHR ''/'' # tag @ ''>'')"
    using wordChar_not_gt by auto
  from cutAt_first [OF this, of x z] assms(3)
  have ct: "cutAt (''</'' @ tag @ ''>'') ?r = Some (x, z)" by simp
  have "matchAt (CHR ''<'' # tag @ CHR ''>'' # ?r) = Some (tag, x, z)"
    unfolding matchAt_def using assms(1) ct
    by (simp only: list.case tw dw Let_def if_False refl option.case prod.case simp_thms)
  then show ?thesis by simp
qed

lemma firstMatch_skip:
  "CHR ''<'' \<notin> set t \<Longrightarrow> firstMatch w = Some (p, tg, i, r) \<Longrightarrow>
     firstMatch (t @ w) = Some (t @ p, tg, i, r)"
proof (induction t)
  case Nil
  then show ?case by simp
next
  case (Cons c t)
  from Cons.prems(1) have "c \<noteq> CHR ''<''" by auto
  then have "matchAt (c # t @ w) = None" by (simp add: matchAt_def)
  with Cons show ?case by simp
qed

lemma firstMatch_pair:
  assumes "CHR ''<'' \<notin> set t" "tag \<noteq> []" "\<forall>c \<in> set tag. isWordChar c"
    "\<not> includes_str x (''</'' @ tag @ ''>'')"
  shows "firstMatch (t @ ''<'' @ tag @ ''>'' @ x @ ''</'' @ tag @ ''>'' @ z) = Some (t, tag, x, z)"
proof -
  let ?w = "''<'' @ tag @ ''>'' @ x @ ''</'' @ tag @ ''>'' @ z"
  from matchAt_pair [OF assms(2,3,4), of z] have m: "matchAt ?w = Some (tag, x, z)" .
  obtain c cs where w: "?w = c # cs" by simp
  with m have "firstMatch ?w = Some ([], tag, x, z)" by (simp only: firstMatch.simps option.case prod.case)
  from firstMatch_skip [OF assms(1) this] show ?thesis by simp
qed


lemma removeTags_pair:
  assumes t: "CHR ''<'' \<notin> set t" and w: "\<forall>c \<in> set tag. isWordChar c"
    and x: "\<And>y. removeTags (x @ y) = removeTags x @ removeTags y"
  shows "removeTags (t @ ''<'' @ tag @ ''>'' @ x @ ''</'' @ tag @ ''>'' @ z)
       = t @ removeTags x @ removeTags z"
proof -
  from w have t1: "CHR ''>'' \<notin> set tag" using wordChar_not_gt by blast
  then have t2: "CHR ''>'' \<notin> set (''/'' @ tag)" by simp
  have "removeTags (t @ ''<'' @ tag @ ''>'' @ x @ ''</'' @ tag @ ''>'' @ z)
      = removeTags (t @ (''<'' @ tag @ ''>'' @ (x @ (''<'' @ (''/'' @ tag) @ ''>'' @ z))))"
    by simp
  also have "\<dots> = t @ removeTags (''<'' @ tag @ ''>'' @ (x @ (''<'' @ (''/'' @ tag) @ ''>'' @ z)))"
    by (rule removeTags_plain_prefix [OF t])
  also have "\<dots> = t @ removeTags (x @ (''<'' @ (''/'' @ tag) @ ''>'' @ z))"
    by (simp only: removeTags_tag [OF t1])
  also have "\<dots> = t @ removeTags x @ removeTags (''<'' @ (''/'' @ tag) @ ''>'' @ z)"
    by (simp only: x)
  also have "\<dots> = t @ removeTags x @ removeTags z"
    by (simp only: removeTags_tag [OF t2])
  finally show ?thesis .
qed

lemma nested_removeTags: "nested x \<Longrightarrow> removeTags (x @ z) = removeTags x @ removeTags z"
proof (induction x arbitrary: z rule: nested.induct)
  case (plain t)
  from removeTags_plain_prefix [OF plain, of z] removeTags_plain_prefix [OF plain, of "[]"]
  show ?case by simp
next
  case (pair t tag x r)
  have a: "\<And>y. removeTags (t @ ''<'' @ tag @ ''>'' @ x @ ''</'' @ tag @ ''>'' @ y)
       = t @ removeTags x @ removeTags y"
    by (rule removeTags_pair [OF pair.hyps(1,3) pair.IH(1)])
  have "removeTags ((t @ ''<'' @ tag @ ''>'' @ x @ ''</'' @ tag @ ''>'' @ r) @ z)
      = removeTags (t @ ''<'' @ tag @ ''>'' @ x @ ''</'' @ tag @ ''>'' @ (r @ z))" by simp
  also have "\<dots> = t @ removeTags x @ removeTags (r @ z)" by (rule a)
  also have "\<dots> = t @ removeTags x @ removeTags r @ removeTags z" by (simp only: pair.IH(2))
  also have "\<dots> = removeTags (t @ ''<'' @ tag @ ''>'' @ x @ ''</'' @ tag @ ''>'' @ r) @ removeTags z"
    by (simp only: a append_assoc)
  finally show ?case .
qed

lemma sentinelTest_skip: "CHR ''<'' \<notin> set t \<Longrightarrow> sentinelTest (t @ w) = sentinelTest w"
proof (induction t)
  case Nil
  then show ?case by simp
next
  case (Cons c t)
  from Cons.prems have "c \<noteq> CHR ''<''" by auto
  then have "\<not> startsWith (c # t @ w) ''<u-org>''" by (simp add: startsWith_Cons)
  with Cons show ?case by simp
qed

lemma not_wordChar_dash: "\<not> isWordChar CHR ''-''"
  by (simp add: isWordChar_def)

lemma sentinelTest_tag:
  assumes "\<forall>c \<in> set tag. isWordChar c"
  shows "sentinelTest (''<'' @ tag @ ''>'' @ w) = sentinelTest w"
    and "sentinelTest (''</'' @ tag @ ''>'' @ w) = sentinelTest w"
proof -
  from assms have n: "CHR ''<'' \<notin> set (tag @ ''>'')" "CHR ''<'' \<notin> set (''/'' @ tag @ ''>'')"
    using wordChar_not_gt by auto
  have "\<not> startsWith (tag @ CHR ''>'' # w) ''u-org>''"
  proof (cases tag)
    case Nil
    then show ?thesis by (simp add: startsWith_Cons)
  next
    case (Cons c1 tag1)
    show ?thesis
    proof (cases tag1)
      case Nil
      with Cons show ?thesis by (simp add: startsWith_Cons)
    next
      case (Cons c2 tag2)
      with assms \<open>tag = c1 # tag1\<close> have "isWordChar c2" by simp
      with not_wordChar_dash have "c2 \<noteq> CHR ''-''" by auto
      with Cons \<open>tag = c1 # tag1\<close> show ?thesis by (simp add: startsWith_Cons)
    qed
  qed
  then have "\<not> startsWith (CHR ''<'' # tag @ CHR ''>'' # w) ''<u-org>''"
    by (simp add: startsWith_Cons)
  then have "sentinelTest (CHR ''<'' # tag @ CHR ''>'' # w) = sentinelTest ((tag @ ''>'') @ w)"
    by simp
  with sentinelTest_skip [OF n(1), of w]
  show "sentinelTest (''<'' @ tag @ ''>'' @ w) = sentinelTest w" by simp
  have "\<not> startsWith (CHR ''<'' # CHR ''/'' # tag @ CHR ''>'' # w) ''<u-org>''"
    by (simp add: startsWith_Cons)
  then have "sentinelTest (CHR ''<'' # CHR ''/'' # tag @ CHR ''>'' # w)
      = sentinelTest ((''/'' @ tag @ ''>'') @ w)"
    by simp
  with sentinelTest_skip [OF n(2), of w]
  show "sentinelTest (''</'' @ tag @ ''>'' @ w) = sentinelTest w" by simp
qed

lemma nested_sentinelTest: "nested x \<Longrightarrow> sentinelTest (x @ z) = sentinelTest z"
proof (induction x arbitrary: z rule: nested.induct)
  case (plain t)
  then show ?case by (rule sentinelTest_skip)
next
  case (pair t tag x r)
  have "sentinelTest ((t @ ''<'' @ tag @ ''>'' @ x @ ''</'' @ tag @ ''>'' @ r) @ z)
      = sentinelTest (t @ (''<'' @ tag @ ''>'' @ (x @ (''</'' @ tag @ ''>'' @ (r @ z)))))"
    by simp
  also have "\<dots> = sentinelTest (''<'' @ tag @ ''>'' @ (x @ (''</'' @ tag @ ''>'' @ (r @ z))))"
    by (rule sentinelTest_skip [OF pair.hyps(1)])
  also have "\<dots> = sentinelTest (x @ (''</'' @ tag @ ''>'' @ (r @ z)))"
    by (rule sentinelTest_tag(1) [OF pair.hyps(3)])
  also have "\<dots> = sentinelTest (''</'' @ tag @ ''>'' @ (r @ z))" by (rule pair.IH(1))
  also have "\<dots> = sentinelTest (r @ z)" by (rule sentinelTest_tag(2) [OF pair.hyps(3)])
  also have "\<dots> = sentinelTest z" by (rule pair.IH(2))
  finally show ?case .
qed

lemma no_gt_sentinelTest: "CHR ''>'' \<notin> set u \<Longrightarrow> \<not> sentinelTest u"
proof (induction u)
  case Nil
  then show ?case by simp
next
  case (Cons c cs)
  have "\<not> startsWith (c # cs) ''<u-org>''"
  proof
    assume "startsWith (c # cs) ''<u-org>''"
    then have "take (length ''<u-org>'') (c # cs) = ''<u-org>''" by (simp only: startsWith_def)
    then have "CHR ''>'' \<in> set (take (length ''<u-org>'') (c # cs))" by (simp only: list.set insert_iff simp_thms)
    then have "CHR ''>'' \<in> set (c # cs)" by (rule in_set_takeD)
    with Cons.prems show False by simp
  qed
  with Cons show ?case by simp
qed

lemma noTag_sentinelTest: "noTag u \<Longrightarrow> \<not> sentinelTest u"
proof (induction u)
  case Nil
  then show ?case by simp
next
  case (Cons c cs)
  show ?case
  proof (cases "c = CHR ''<''")
    case True
    with Cons.prems have g: "CHR ''>'' \<notin> set (c # cs)" by simp
    then show ?thesis by (rule no_gt_sentinelTest)
  next
    case False
    then have "\<not> startsWith (c # cs) ''<u-org>''" by (simp add: startsWith_Cons)
    with Cons show ?thesis by simp
  qed
qed

lemma stripPairs_nested:
  "nested a \<Longrightarrow> noTag u \<Longrightarrow> stripPairs (a @ u) = removeTags a @ u"
proof (induction a arbitrary: u rule: nested.induct)
  case (plain t)
  from noTag_append [OF plain.hyps plain.prems] have "firstMatch (t @ u) = None"
    by (rule noTag_firstMatch)
  then have "stripPairs (t @ u) = t @ u" by (simp add: stripPairs.simps [of "t @ u"])
  moreover from noTag_plain [OF plain.hyps] have "removeTags t = t" by (rule noTag_removeTags)
  ultimately show ?case by simp
next
  case (pair t tag x r)
  let ?s = "t @ ''<'' @ tag @ ''>'' @ x @ ''</'' @ tag @ ''>'' @ (r @ u)"
  from firstMatch_pair [OF pair.hyps(1,2,3,5), of "r @ u"]
  have fm: "firstMatch ?s = Some (t, tag, x, r @ u)" .
  have "stripPairs ?s = t @ stripPairs x @ stripPairs (r @ u)"
    by (simp only: stripPairs.simps [of ?s] fm option.case prod.case)
  moreover from pair.IH(1) [of "[]"] have "stripPairs x = removeTags x" by simp
  moreover from pair.IH(2) [OF pair.prems] have "stripPairs (r @ u) = removeTags r @ u" .
  moreover have "removeTags (t @ ''<'' @ tag @ ''>'' @ x @ ''</'' @ tag @ ''>'' @ r)
      = t @ removeTags x @ removeTags r"
    by (rule removeTags_pair [OF pair.hyps(1,3) nested_removeTags [OF pair.hyps(4)]])
  ultimately show ?case by simp
qed

text \<open>The examples of the specification, and a pair of the same tag inside itself.\<close>

lemma parseStyledString_examples:
  "parseStyledString id (Str ''<b><i>x</i></b>'')
     = ([], Inr [\<lparr>bold = True, italics = True, underline = False, content = ''x''\<rparr>])"
  "parseStyledString id (Str ''a<b>b</b>c'')
     = ([], Inr [\<lparr>bold = False, italics = False, underline = False, content = ''a''\<rparr>,
                 \<lparr>bold = True, italics = False, underline = False, content = ''b''\<rparr>,
                 \<lparr>bold = False, italics = False, underline = False, content = ''c''\<rparr>])"
  "parseStyledString id (Str ''<u-org><b>x</b></u-org>'')
     = ([], Inr [\<lparr>bold = False, italics = False, underline = False, content = ''x''\<rparr>])"
  "parseStyledString id (Str ''<b><b>x</b></b>'')
     = ([], Inr [\<lparr>bold = True, italics = False, underline = False, content = ''<b>x''\<rparr>,
                 \<lparr>bold = False, italics = False, underline = False, content = ''</b>''\<rparr>])"
  by code_simp+

subsection \<open>The claims on the parser\<close>

text \<open>
  Claim C1, as stated: the contents of the runs, concatenated, are the input with its
  markup tags removed. It fails on \<open>"a<br/>b"\<close>: the parser returns one run whose content
  is the whole input, tag included, where the input without its tags is \<open>"ab"\<close>.
\<close>

theorem parseStyledString_keeps_unpaired_tag:
  "parseStyledString id (Str ''a<br/>b'')
     = ([], Inr [\<lparr>bold = False, italics = False, underline = False, content = ''a<br/>b''\<rparr>])
   \<and> removeTags ''a<br/>b'' = ''ab''"
  by code_simp

text \<open>
  Claim C1, amended. Let the input be made of pairs \<open><tag>...</tag>\<close>, in sequence or
  nested, whose tag is a non-empty word, with no pair inside a pair of the same tag and
  no \<open><\<close> in the text before, between and inside the pairs; after the last pair may
  come a text in which no \<open><\<close> is followed by a \<open>>\<close>. Then the contents of the runs,
  concatenated in order, are the input with its markup tags removed. A tag outside a
  pair is not removed: when the input holds no pair \<open><tag>...</tag>\<close> and no pair
  \<open><u-org>...</u-org>\<close>, the concatenation is the input itself. When the input is
  wrapped in \<open><u-org>...</u-org>\<close> and, with its tags stripped and its entities decoded,
  holds no pair, the concatenation is that stripped and decoded text. On every string
  the parser returns its runs and logs nothing.
\<close>

theorem parseStyledString_text:
  "parseStyledString decode (Str s) = ([], Inr (parseString decode s))
   \<and> (nested a \<and> noTag u \<longrightarrow> textOf (parseString decode (a @ u)) = removeTags (a @ u))
   \<and> (markupFree m \<longrightarrow> textOf (parseString decode m) = m)
   \<and> (firstMatch (stripTags decode (''<u-org>'' @ x @ ''</u-org>'')) = None \<longrightarrow>
        textOf (parseString decode (''<u-org>'' @ x @ ''</u-org>''))
          = stripTags decode (''<u-org>'' @ x @ ''</u-org>''))"
proof (intro conjI impI)
  show "parseStyledString decode (Str s) = ([], Inr (parseString decode s))"
    by (simp add: parseStyledString_def coerce_def)
next
  assume h: "nested a \<and> noTag u"
  then have n: "nested a" and t: "noTag u" by simp_all
  from nested_sentinelTest [OF n, of u] noTag_sentinelTest [OF t]
  have "\<not> sentinelTest (a @ u)" by simp
  then have "textOf (parseString decode (a @ u)) = stripPairs (a @ u)"
    by (simp only: parseString_def if_False textOf_segments(1))
  also from stripPairs_nested [OF n t] have "\<dots> = removeTags a @ u" .
  also from noTag_removeTags [OF t] have "\<dots> = removeTags a @ removeTags u" by simp
  also from nested_removeTags [OF n, of u] have "\<dots> = removeTags (a @ u)" by simp
  finally show "textOf (parseString decode (a @ u)) = removeTags (a @ u)" .
next
  assume "markupFree m"
  then have f: "firstMatch m = None" and n: "\<not> sentinelTest m"
    by (simp_all add: markupFree_def)
  from n have "textOf (parseString decode m) = stripPairs m"
    by (simp only: parseString_def if_False textOf_segments(1))
  with stripPairs_none [OF f] show "textOf (parseString decode m) = m" by (simp only:)
next
  let ?w = "''<u-org>'' @ x @ ''</u-org>''"
  assume f: "firstMatch (stripTags decode ?w) = None"
  have "sentinelTest ?w" by (rule sentinelTest_wrapped)
  then have "textOf (parseString decode ?w) = stripPairs (stripTags decode ?w)"
    by (simp only: parseString_def if_True textOf_segments(1))
  with stripPairs_none [OF f] show "textOf (parseString decode ?w) = stripTags decode ?w"
    by (simp only:)
qed

theorem parseStyledString_text_witness:
  "nested ''a<b>b<i>c</i></b>d'' \<and> noTag '' 2 < 3''
   \<and> textOf (parseString id ''a<b>b<i>c</i></b>d 2 < 3'') = ''abcd 2 < 3''
   \<and> markupFree ''a<br/>b''
   \<and> textOf (parseString id ''a<br/>b'') = ''a<br/>b''
   \<and> firstMatch (stripTags id ''<u-org><b>x</b></u-org>'') = None
   \<and> textOf (parseString id ''<u-org><b>x</b></u-org>'') = ''x''"
proof -
  have wi: "\<forall>c \<in> set ''i''. isWordChar c" and wb: "\<forall>c \<in> set ''b''. isWordChar c"
    by (simp_all add: isWordChar_def)
  have i1: "\<not> includes_str ''c'' (''</'' @ ''i'' @ ''>'')"
    and i2: "\<not> includes_str ''b<i>c</i>'' (''</'' @ ''b'' @ ''>'')"
    by code_simp+
  have "nested (''b'' @ ''<'' @ ''i'' @ ''>'' @ ''c'' @ ''</'' @ ''i'' @ ''>'' @ [])"
    by (rule nested.pair [OF _ _ wi nested.plain i1 nested.plain]) simp_all
  then have n2: "nested ''b<i>c</i>''" by simp
  have "nested (''a'' @ ''<'' @ ''b'' @ ''>'' @ ''b<i>c</i>'' @ ''</'' @ ''b'' @ ''>'' @ ''d'')"
    by (rule nested.pair [OF _ _ wb n2 i2 nested.plain]) simp_all
  then have n: "nested ''a<b>b<i>c</i></b>d''" by simp
  have t: "noTag '' 2 < 3''" by code_simp
  have m: "markupFree ''a<br/>b''" by code_simp
  have f: "firstMatch (stripTags id (''<u-org>'' @ ''<b>x</b>'' @ ''</u-org>'')) = None" by code_simp
  have r: "removeTags (''a<b>b<i>c</i></b>d'' @ '' 2 < 3'') = ''abcd 2 < 3''" by code_simp
  have d: "stripTags id (''<u-org>'' @ ''<b>x</b>'' @ ''</u-org>'') = ''x''" by code_simp
  from parseStyledString_text [of id "[]" "''a<b>b<i>c</i></b>d''" "'' 2 < 3''" "''a<br/>b''" "''<b>x</b>''"]
    n t m f
  have "textOf (parseString id (''a<b>b<i>c</i></b>d'' @ '' 2 < 3''))
          = removeTags (''a<b>b<i>c</i></b>d'' @ '' 2 < 3'')"
    and "textOf (parseString id ''a<br/>b'') = ''a<br/>b''"
    and "textOf (parseString id (''<u-org>'' @ ''<b>x</b>'' @ ''</u-org>''))
          = stripTags id (''<u-org>'' @ ''<b>x</b>'' @ ''</u-org>'')"
    by blast+
  with r d have "textOf (parseString id (''a<b>b<i>c</i></b>d'' @ '' 2 < 3'')) = ''abcd 2 < 3''"
    and "textOf (parseString id ''a<br/>b'') = ''a<br/>b''"
    and "textOf (parseString id (''<u-org>'' @ ''<b>x</b>'' @ ''</u-org>'')) = ''x''"
    by simp_all
  with n t m f show ?thesis by simp
qed

text \<open>
  Claim C8. For a string with no matched tag pair, \<open>parseStyledString\<close> returns exactly
  one run, with the string as content and no style flag set; parsing the content of
  that run again returns the same run.
\<close>

theorem parseStyledString_markup_free:
  assumes "markupFree s"
  shows "parseStyledString decode (Str s)
       = ([], Inr [\<lparr>bold = False, italics = False, underline = False, content = s\<rparr>])
     \<and> parseStyledString decode
         (Str (content \<lparr>bold = False, italics = False, underline = False, content = s\<rparr>))
       = ([], Inr [\<lparr>bold = False, italics = False, underline = False, content = s\<rparr>])"
proof -
  from assms have f: "firstMatch s = None" and n: "\<not> sentinelTest s"
    by (simp_all add: markupFree_def)
  from f have "processSegments s noStyles = [createTextPart s noStyles]"
    by (simp add: processSegments.simps replaceLoop.simps [of s])
  with n have "parseStyledString decode (Str s)
       = ([], Inr [\<lparr>bold = False, italics = False, underline = False, content = s\<rparr>])"
    by (simp add: parseStyledString_def coerce_def parseString_def createTextPart_def noStyles_def)
  then show ?thesis by simp
qed

theorem parseStyledString_markup_free_witness:
  "markupFree ''2 < 3''
   \<and> parseStyledString id (Str ''2 < 3'')
       = ([], Inr [\<lparr>bold = False, italics = False, underline = False, content = ''2 < 3''\<rparr>])"
proof -
  have h: "markupFree ''2 < 3''" by code_simp
  from parseStyledString_markup_free [OF h, of id] h show ?thesis by blast
qed

text \<open>
  Claim C3: the stripping path is taken only when the whole input is wrapped in
  \<open><u-org>...</u-org>\<close>, and tags outside a sentinel pair inside the input are still
  styling. The test is a search for the pair anywhere in the input: on
  \<open>"<b>a</b><u-org>x</u-org>"\<close>, which does not start with the sentinel, the path is
  taken, the tag \<open><b>\<close> is stripped and the result is one run without style.
\<close>

theorem parseStyledString_sentinel_inside:
  "\<not> startsWith ''<b>a</b><u-org>x</u-org>'' ''<u-org>''
   \<and> sentinelTest ''<b>a</b><u-org>x</u-org>''
   \<and> parseStyledString decode (Str ''<b>a</b><u-org>x</u-org>'')
       = ([], Inr (processSegments (decode ''ax'') noStyles))
   \<and> parseStyledString id (Str ''<b>a</b><u-org>x</u-org>'')
       = ([], Inr [\<lparr>bold = False, italics = False, underline = False, content = ''ax''\<rparr>])"
proof (intro conjI)
  show "\<not> startsWith ''<b>a</b><u-org>x</u-org>'' ''<u-org>''" by code_simp
  show s: "sentinelTest ''<b>a</b><u-org>x</u-org>''" by code_simp
  have r: "removeTags ''<b>a</b><u-org>x</u-org>'' = ''ax''" by code_simp
  from s r show "parseStyledString decode (Str ''<b>a</b><u-org>x</u-org>'')
       = ([], Inr (processSegments (decode ''ax'') noStyles))"
    by (simp add: parseStyledString_def coerce_def parseString_def stripTags_def)
  show "parseStyledString id (Str ''<b>a</b><u-org>x</u-org>'')
       = ([], Inr [\<lparr>bold = False, italics = False, underline = False, content = ''ax''\<rparr>])"
    by code_simp
qed

text \<open>
  Claim C6: no value that is not a string makes \<open>parseStyledString\<close> fail, \<open>null\<close> and
  \<open>undefined\<close> included. For these two the call \<open>inputString.toString()\<close> throws after
  the warning; any other value that is not a string is coerced and parsed.
\<close>

theorem parseStyledString_null_throws:
  "parseStyledString decode Null = ([Warning Null], Inl TypeError)
   \<and> parseStyledString decode Undefined = ([Warning Undefined], Inl TypeError)
   \<and> parseStyledString decode (Other r) = ([Warning (Other r)], Inr (parseString decode r))"
  by (simp add: parseStyledString_def coerce_def)

section \<open>Properties of the markup-tree serializer\<close>

subsection \<open>Assignments along property paths\<close>

lemma map_of_setProp: "map_of (setProp k v ps) k' = (if k' = k then Some v else map_of ps k')"
  by (induction ps) auto

lemma getPath_empty: "getPath r [] = None"
  by (induction r "[] :: (string \<times> pval) list" rule: getPath.induct) auto

lemma getPath_Cons:
  "getPath (k # ks) ps =
     (case map_of ps k of None \<Rightarrow> None
      | Some v \<Rightarrow> if ks = [] then Some v
                  else (case v of PObj sub \<Rightarrow> getPath ks sub | PStr s \<Rightarrow> None))"
  by (cases ks) (auto split: option.splits pval.splits)

lemma comparable_Nil2 [simp]: "comparable p []"
  by (cases p) auto

lemma written_single:
  assumes "leafVal x"
  shows "written [k] x ps (setProp k x ps)"
  unfolding written_def
proof (intro conjI allI impI)
  show "getPath [k] (setProp k x ps) = Some x" by (simp add: map_of_setProp)
next
  fix r assume "\<not> comparable r [k]"
  then obtain k' r' where r: "r = k' # r'" and "k' \<noteq> k" by (cases r) auto
  then show "getPath r (setProp k x ps) = getPath r ps"
    by (simp add: getPath_Cons map_of_setProp)
next
  fix r s assume g: "getPath r (setProp k x ps) = Some (PStr s)"
  then obtain k' r' where r: "r = k' # r'" by (cases r) auto
  show "r = [k] \<or> (\<not> comparable r [k] \<and> getPath r ps = Some (PStr s))"
  proof (cases "k' = k")
    case True
    with g r assms have "r' = []"
      by (auto simp: getPath_Cons map_of_setProp leafVal_def getPath_empty split: if_splits pval.splits)
    with True r show ?thesis by simp
  next
    case False
    with g r show ?thesis by (simp add: getPath_Cons map_of_setProp)
  qed
qed

lemma assignPath_fresh:
  "leafVal x \<Longrightarrow> q \<noteq> [] \<Longrightarrow> fresh q ps \<Longrightarrow>
     \<exists>ps'. assignPath q x ps = Inr ps' \<and> written q x ps ps'"
proof (induction q x ps rule: assignPath.induct)
  case (1 x ps)
  then show ?case by simp
next
  case (2 k x ps)
  then show ?case using written_single by simp
next
  case (3 k k2 ks x ps)
  let ?q = "k2 # ks"
  have nostr: "\<And>s. map_of ps k \<noteq> Some (PStr s)"
  proof
    fix s assume "map_of ps k = Some (PStr s)"
    then have "getPath [k] ps = Some (PStr s)" by simp
    with "3.prems"(3) have "\<not> comparable [k] (k # ?q)" unfolding fresh_def by blast
    then show False by simp
  qed
  obtain sub where sub: "orNew (map_of ps k) = PObj sub"
    and subget: "\<And>r. r \<noteq> [] \<Longrightarrow> getPath (k # r) ps = getPath r sub"
  proof (cases "map_of ps k")
    case None
    then have "orNew (map_of ps k) = PObj []" by (simp add: orNew_def)
    moreover from None have "\<And>r. r \<noteq> [] \<Longrightarrow> getPath (k # r) ps = getPath r []"
      by (simp add: getPath_Cons getPath_empty)
    ultimately show ?thesis using that by blast
  next
    case (Some v)
    with nostr obtain sub where v: "v = PObj sub" by (cases v) auto
    with Some have "orNew (map_of ps k) = PObj sub" by (simp add: orNew_def)
    moreover from Some v have "\<And>r. r \<noteq> [] \<Longrightarrow> getPath (k # r) ps = getPath r sub"
      by (simp add: getPath_Cons)
    ultimately show ?thesis using that by blast
  qed
  have "fresh ?q sub"
    unfolding fresh_def
  proof (intro allI impI)
    fix r s assume g: "getPath r sub = Some (PStr s)"
    then have "r \<noteq> []" by auto
    with g subget have "getPath (k # r) ps = Some (PStr s)" by simp
    with "3.prems"(3) have "\<not> comparable (k # r) (k # ?q)" unfolding fresh_def by blast
    then show "\<not> comparable r ?q" by simp
  qed
  with "3.IH" [OF sub] "3.prems"(1) obtain sub' where a: "assignPath ?q x sub = Inr sub'"
    and w: "written ?q x sub sub'" by auto
  let ?ps' = "setProp k (PObj sub') ps"
  from sub a have res: "assignPath (k # ?q) x ps = Inr ?ps'" by simp
  have get': "\<And>r. r \<noteq> [] \<Longrightarrow> getPath (k # r) ?ps' = getPath r sub'"
    by (simp add: getPath_Cons map_of_setProp)
  have "written (k # ?q) x ps ?ps'"
    unfolding written_def
  proof (intro conjI allI impI)
    from w show "getPath (k # ?q) ?ps' = Some x" by (simp add: written_def map_of_setProp)
  next
    fix r assume nc: "\<not> comparable r (k # ?q)"
    then obtain k' r' where r: "r = k' # r'" by (cases r) auto
    show "getPath r ?ps' = getPath r ps"
    proof (cases "k' = k")
      case True
      with nc r have "r' \<noteq> []" and "\<not> comparable r' ?q" by (cases r'; simp)+
      with w True r show ?thesis by (simp add: get' subget written_def)
    next
      case False
      with r show ?thesis by (simp add: getPath_Cons map_of_setProp)
    qed
  next
    fix r s assume g: "getPath r ?ps' = Some (PStr s)"
    then obtain k' r' where r: "r = k' # r'" by (cases r) auto
    show "r = k # ?q \<or> (\<not> comparable r (k # ?q) \<and> getPath r ps = Some (PStr s))"
    proof (cases "k' = k")
      case True
      with g r have ne: "r' \<noteq> []" by (auto simp: getPath_Cons map_of_setProp)
      with g r True have "getPath r' sub' = Some (PStr s)" by (simp add: get')
      with w have "r' = ?q \<or> (\<not> comparable r' ?q \<and> getPath r' sub = Some (PStr s))"
        unfolding written_def by blast
      with True r ne show ?thesis by (auto simp: subget)
    next
      case False
      with g r show ?thesis by (simp add: getPath_Cons map_of_setProp)
    qed
  qed
  with res show ?case by blast
qed

lemma table_incomparable:
  "list_all (\<lambda>(n, p). list_all (\<lambda>(m, q). n = m \<or> \<not> comparable p q) translationTable) translationTable"
  by code_simp

lemma table_heads:
  "list_all (\<lambda>(n, p). p \<noteq> [] \<and> hd p \<noteq> ''underline'') translationTable"
  by code_simp

lemma table_names:
  "list_all (\<lambda>(n, p). isDataAttr n \<and> n \<noteq> ''data-underline'') translationTable"
  by code_simp

lemma table_entry:
  assumes "map_of translationTable n = Some p"
  shows "(n, p) \<in> set translationTable"
  using assms by (rule map_of_SomeD)

lemma table_path_facts:
  assumes "map_of translationTable n = Some p"
  shows "p \<noteq> []" "hd p \<noteq> ''underline''" "isDataAttr n" "n \<noteq> ''data-underline''"
  using table_entry [OF assms] table_heads table_names
  by (auto simp: list_all_iff)

lemma table_paths_apart:
  assumes "map_of translationTable n = Some p" "map_of translationTable m = Some q" "n \<noteq> m"
  shows "\<not> comparable p q"
  using table_entry [OF assms(1)] table_entry [OF assms(2)] assms(3) table_incomparable
  by (auto simp: list_all_iff)

lemma tableHeads_mem:
  assumes "a \<in> set attrs" "map_of translationTable (fst a) = Some p"
  shows "hd p \<in> set (tableHeads attrs)"
  using assms by (force simp: tableHeads_def)

lemma cutAt_startsWith: "startsWith s p \<Longrightarrow> cutAt p s = Some ([], drop (length p) s)"
  by (cases s) (auto simp: startsWith_def)

lemma startsWith_split: "startsWith s p \<Longrightarrow> s = p @ drop (length p) s"
proof -
  assume "startsWith s p"
  then have "take (length p) s = p" by (simp add: startsWith_def)
  then show ?thesis by (metis append_take_drop_id)
qed

lemma flatKey_drop: "startsWith n ''data-'' \<Longrightarrow> flatKey n = drop (length ''data-'') n"
  by (simp only: flatKey_def replaceFirst_def cutAt_startsWith option.case prod.case append_Nil)

lemma flatKey_name:
  assumes "startsWith n ''data-''"
  shows "n = ''data-'' @ flatKey n"
  using assms startsWith_split [of n "''data-''"] by (simp only: flatKey_drop)

lemma flatKey_inj:
  assumes "startsWith n ''data-''" "startsWith m ''data-''" "flatKey n = flatKey m"
  shows "n = m"
proof -
  from assms(1) have "n = ''data-'' @ flatKey n" by (rule flatKey_name)
  moreover from assms(2) have "m = ''data-'' @ flatKey m" by (rule flatKey_name)
  ultimately show ?thesis using assms(3) by simp
qed

lemma flatKey_underline:
  assumes "isDataAttr m" "flatKey m = ''underline''"
  shows "m = ''data-underline''"
proof -
  from assms(1) have "startsWith m ''data-''" by (simp add: isDataAttr_def)
  then have "m = ''data-'' @ flatKey m" by (rule flatKey_name)
  with assms(2) show ?thesis by simp
qed

lemma comparable_single1: "comparable [k] q = (q = [] \<or> hd q = k)"
  by (cases q) auto

lemma comparable_single2: "comparable p [k] = (p = [] \<or> hd p = k)"
  by (cases p) auto

lemma applyAttr_assign:
  assumes "isDataAttr (fst a)" "flatOK hs (fst a)"
  shows "applyAttr a ps = assignPath (pathOf (fst a)) (valueOf a) ps"
proof (cases "fst a = ''data-underline''")
  case True
  with assms show ?thesis by (simp add: applyAttr_def pathOf_def valueOf_def)
next
  case False
  show ?thesis
  proof (cases "map_of translationTable (fst a)")
    case None
    with False assms(2) have "flatKey (fst a) \<noteq> ''__proto__''" by (simp add: flatOK_def)
    with None False assms(1) show ?thesis
      by (simp add: applyAttr_def pathOf_def valueOf_def assignFlat_def flatKey_def)
  next
    case (Some p)
    with False assms(1) show ?thesis by (simp add: applyAttr_def pathOf_def valueOf_def)
  qed
qed

lemma pathOf_nonempty: "pathOf n \<noteq> []"
  by (auto simp: pathOf_def table_path_facts(1) split: option.splits)

lemma valueOf_leaf: "leafVal (valueOf a)"
  by (simp add: valueOf_def leafVal_def)

lemma comparable_sym: "comparable p q = comparable q p"
  by (induction p q rule: comparable.induct) (auto simp: comparable_single1)

text \<open>
  The paths of two attributes of an element are incomparable: two rows of the table by
  inspection, two flat keys because the names differ, a row and a flat key because the
  flat key is none of the top-level keys \<open>hs\<close> that the rows of the element write.
\<close>

lemma pathOf_apart_aux:
  assumes n: "isDataAttr n" and m: "isDataAttr m" "flatOK hs m" and ne: "n \<noteq> m"
    and nk: "n = ''data-underline'' \<or> map_of translationTable n \<noteq> None"
    and nh: "\<And>p. map_of translationTable n = Some p \<Longrightarrow> hd p \<in> set hs"
  shows "\<not> comparable (pathOf n) (pathOf m)"
proof (cases "m = ''data-underline'' \<or> map_of translationTable m \<noteq> None")
  case False
  then have pm: "pathOf m = [flatKey m]" by (auto simp: pathOf_def)
  from False m(2) have out: "flatKey m \<notin> set hs" by (simp add: flatOK_def)
  have "hd (pathOf n) \<noteq> flatKey m"
  proof (cases "n = ''data-underline''")
    case True
    then have "hd (pathOf n) = ''underline''" by (simp add: pathOf_def)
    moreover from False have "m \<noteq> ''data-underline''" by simp
    with flatKey_underline [OF m(1)] have "flatKey m \<noteq> ''underline''" by blast
    ultimately show ?thesis by simp
  next
    case False
    with nk obtain p where p: "map_of translationTable n = Some p" by auto
    with False have "pathOf n = p" by (simp add: pathOf_def)
    with nh [OF p] out show ?thesis by auto
  qed
  with pm pathOf_nonempty [of n] show ?thesis by (simp add: comparable_single2)
next
  case True
  show ?thesis
  proof (cases "n = ''data-underline''")
    case nu: True
    with ne True obtain q where q: "map_of translationTable m = Some q" by auto
    with ne nu have "pathOf m = q" by (simp add: pathOf_def)
    with nu table_path_facts(1,2) [OF q] show ?thesis
      by (simp add: pathOf_def comparable_single1)
  next
    case nn: False
    with nk obtain p where p: "map_of translationTable n = Some p" by auto
    with nn have pn: "pathOf n = p" by (simp add: pathOf_def)
    show ?thesis
    proof (cases "m = ''data-underline''")
      case True
      with pn table_path_facts(1,2) [OF p] show ?thesis
        by (simp add: pathOf_def comparable_single2)
    next
      case False
      with True obtain q where q: "map_of translationTable m = Some q" by auto
      with False have "pathOf m = q" by (simp add: pathOf_def)
      with pn table_paths_apart [OF p q ne] show ?thesis by simp
    qed
  qed
qed

lemma pathOf_apart:
  assumes n: "isDataAttr n" "flatOK hs n" and m: "isDataAttr m" "flatOK hs m" and ne: "n \<noteq> m"
    and nh: "\<And>p. map_of translationTable n = Some p \<Longrightarrow> hd p \<in> set hs"
    and mh: "\<And>p. map_of translationTable m = Some p \<Longrightarrow> hd p \<in> set hs"
  shows "\<not> comparable (pathOf n) (pathOf m)"
proof (cases "n = ''data-underline'' \<or> map_of translationTable n \<noteq> None")
  case True
  from pathOf_apart_aux [OF n(1) m ne True nh] show ?thesis .
next
  case nf: False
  show ?thesis
  proof (cases "m = ''data-underline'' \<or> map_of translationTable m \<noteq> None")
    case True
    from ne have "m \<noteq> n" by simp
    from pathOf_apart_aux [OF m(1) n this True mh] show ?thesis by (simp add: comparable_sym)
  next
    case False
    with nf have "pathOf n = [flatKey n]" "pathOf m = [flatKey m]" by (auto simp: pathOf_def)
    moreover from n(1) m(1) ne have "flatKey n \<noteq> flatKey m"
      using flatKey_inj [of n m] by (auto simp: isDataAttr_def)
    ultimately show ?thesis by simp
  qed
qed

lemma parseFrom_places:
  "distinct (map fst attrs) \<Longrightarrow> \<forall>a \<in> set attrs. admitted hs ps a \<Longrightarrow>
   \<exists>ps'. parseFrom attrs ps = Inr ps'
     \<and> (\<forall>a \<in> set attrs. isDataAttr (fst a) \<longrightarrow> getPath (pathOf (fst a)) ps' = Some (valueOf a))
     \<and> (\<forall>r. (\<forall>a \<in> set attrs. isDataAttr (fst a) \<longrightarrow> \<not> comparable r (pathOf (fst a)))
            \<longrightarrow> getPath r ps' = getPath r ps)"
proof (induction attrs arbitrary: ps)
  case Nil
  then show ?case by simp
next
  case (Cons a attrs)
  from Cons.prems(1) have d: "distinct (map fst attrs)" and notin: "fst a \<notin> fst ` set attrs"
    by simp_all
  show ?case
  proof (cases "isDataAttr (fst a)")
    case False
    then have "applyAttr a ps = Inr ps" by (simp add: applyAttr_def)
    moreover from Cons.prems(2) have "\<forall>b \<in> set attrs. admitted hs ps b" by simp
    from Cons.IH [OF d this] obtain ps' where
      "parseFrom attrs ps = Inr ps'"
      "\<forall>b \<in> set attrs. isDataAttr (fst b) \<longrightarrow> getPath (pathOf (fst b)) ps' = Some (valueOf b)"
      "\<forall>r. (\<forall>b \<in> set attrs. isDataAttr (fst b) \<longrightarrow> \<not> comparable r (pathOf (fst b)))
            \<longrightarrow> getPath r ps' = getPath r ps"
      by blast
    ultimately show ?thesis using False by auto
  next
    case True
    let ?q = "pathOf (fst a)"
    from True Cons.prems(2) have ok: "flatOK hs (fst a)" and fr: "fresh ?q ps"
      and ah: "\<And>p. map_of translationTable (fst a) = Some p \<Longrightarrow> hd p \<in> set hs"
      by (simp_all add: admitted_def)
    from assignPath_fresh [OF valueOf_leaf pathOf_nonempty fr]
    obtain ps1 where a1: "assignPath ?q (valueOf a) ps = Inr ps1"
      and w: "written ?q (valueOf a) ps ps1" by blast
    from a1 have ap: "applyAttr a ps = Inr ps1" by (simp add: applyAttr_assign [OF True ok])
    have apart: "\<And>b. b \<in> set attrs \<Longrightarrow> isDataAttr (fst b) \<Longrightarrow> \<not> comparable ?q (pathOf (fst b))"
    proof -
      fix b assume b: "b \<in> set attrs" "isDataAttr (fst b)"
      with notin have ne: "fst a \<noteq> fst b" by auto
      from b Cons.prems(2) have okb: "flatOK hs (fst b)"
        and bh: "\<And>p. map_of translationTable (fst b) = Some p \<Longrightarrow> hd p \<in> set hs"
        by (simp_all add: admitted_def)
      from pathOf_apart [OF True ok b(2) okb ne ah bh]
      show "\<not> comparable ?q (pathOf (fst b))" by simp
    qed
    have "\<forall>b \<in> set attrs. admitted hs ps1 b"
    proof
      fix b assume b: "b \<in> set attrs"
      with Cons.prems(2) have adm: "admitted hs ps b" by simp
      show "admitted hs ps1 b"
      proof (cases "isDataAttr (fst b)")
        case False
        then show ?thesis by (simp add: admitted_def)
      next
        case db: True
        with adm have fb: "fresh (pathOf (fst b)) ps" by (simp add: admitted_def)
        have "fresh (pathOf (fst b)) ps1"
          unfolding fresh_def
        proof (intro allI impI)
          fix r s assume "getPath r ps1 = Some (PStr s)"
          with w have "r = ?q \<or> getPath r ps = Some (PStr s)" unfolding written_def by blast
          then show "\<not> comparable r (pathOf (fst b))"
          proof
            assume "r = ?q" with apart [OF b db] show ?thesis by simp
          next
            assume "getPath r ps = Some (PStr s)" with fb show ?thesis unfolding fresh_def by blast
          qed
        qed
        with adm show ?thesis by (simp add: admitted_def)
      qed
    qed
    from Cons.IH [OF d this] obtain ps' where
      p: "parseFrom attrs ps1 = Inr ps'"
      and g: "\<forall>b \<in> set attrs. isDataAttr (fst b) \<longrightarrow> getPath (pathOf (fst b)) ps' = Some (valueOf b)"
      and k: "\<forall>r. (\<forall>b \<in> set attrs. isDataAttr (fst b) \<longrightarrow> \<not> comparable r (pathOf (fst b)))
            \<longrightarrow> getPath r ps' = getPath r ps1"
      by blast
    from ap p have res: "parseFrom (a # attrs) ps = Inr ps'" by simp
    from k apart have "getPath ?q ps' = getPath ?q ps1" by blast
    with w have ga: "getPath ?q ps' = Some (valueOf a)" by (simp add: written_def)
    have keep: "\<forall>r. (\<forall>b \<in> set (a # attrs). isDataAttr (fst b) \<longrightarrow> \<not> comparable r (pathOf (fst b)))
            \<longrightarrow> getPath r ps' = getPath r ps"
    proof (intro allI impI)
      fix r assume h: "\<forall>b \<in> set (a # attrs). isDataAttr (fst b) \<longrightarrow> \<not> comparable r (pathOf (fst b))"
      with True have "\<not> comparable r ?q" by simp
      with w have "getPath r ps1 = getPath r ps" by (simp add: written_def)
      moreover from h k have "getPath r ps' = getPath r ps1" by simp
      ultimately show "getPath r ps' = getPath r ps" by simp
    qed
    from res ga g keep show ?thesis by auto
  qed
qed

lemma parseProperties_paths:
  assumes "collisionFree attrs"
  shows "\<exists>ps. parseProperties attrs = Inr ps
     \<and> (\<forall>a \<in> set attrs. isDataAttr (fst a) \<longrightarrow> getPath (pathOf (fst a)) ps = Some (valueOf a))"
proof -
  from assms have d: "distinct (map fst attrs)"
    and ok: "\<forall>a \<in> set attrs. isDataAttr (fst a) \<longrightarrow> flatOK (tableHeads attrs) (fst a)"
    by (simp_all add: collisionFree_def list_all_iff)
  have "\<And>q. fresh q []" by (simp add: fresh_def getPath_empty)
  with ok have "\<forall>a \<in> set attrs. admitted (tableHeads attrs) [] a"
    by (auto simp: admitted_def intro: tableHeads_mem)
  from parseFrom_places [OF d this] show ?thesis by (auto simp: parseProperties_def)
qed

subsection \<open>Text nodes\<close>




subsection \<open>Wrappers\<close>

text \<open>
  Two facts on every fragment. No object of type \<open>contentWrapper\<close> is in the output. When
  no \<open>contentWrapper\<close> is a child of a \<open>contentWrapper\<close>, every entry of every children
  sequence of the output is a single node.
\<close>

lemma ofProp_not_arr: "\<not> isArr (ofProp v)"
  by (cases v) auto

lemma foldl_setProp_no_arr:
  "(\<And>k v. map_of obj k = Some v \<Longrightarrow> \<not> isArr v) \<Longrightarrow>
   map_of (foldl (\<lambda>obj (k, v). setProp k (ofProp v) obj) obj props) k = Some v \<Longrightarrow> \<not> isArr v"
proof (induction props arbitrary: obj)
  case Nil
  then show ?case by simp
next
  case (Cons p props)
  obtain k' v' where p: "p = (k', v')" by (cases p)
  have "\<And>k v. map_of (setProp k' (ofProp v') obj) k = Some v \<Longrightarrow> \<not> isArr v"
    using Cons.prems(1) by (auto simp: map_of_setProp ofProp_not_arr split: if_splits)
  from Cons.IH [OF this] Cons.prems(2) p show ?case by simp
qed

lemma spreadObject_no_arr: "map_of (spreadObject t props) k = Some v \<Longrightarrow> \<not> isArr v"
  unfolding spreadObject_def
  by (rule foldl_setProp_no_arr [where obj = "[(''type'', JStr t)]"]) (auto split: if_splits)

lemma single_text: "single (textObject v)"
  unfolding textObject_def by (rule single.intros) simp

lemma pushOrSpread_single:
  assumes "v = JNull \<or> single v \<or> (\<exists>xs. v = JArr xs \<and> (\<forall>x \<in> set xs. single x))"
  shows "\<forall>x \<in> set (pushOrSpread v). single x"
  using assms by (auto simp: pushOrSpread_def elim: single.cases split: jsv.splits)

lemma element_single:
  assumes "\<forall>x \<in> set children. single x"
  shows "single (JObj (if t = ''text''
                       then setProp ''content'' (JStr c) (spreadObject t props)
                       else if children \<noteq> []
                       then setProp ''children'' (JArr children) (spreadObject t props)
                       else spreadObject t props))"
proof (rule single.intros)
  fix cs c'
  assume m: "map_of (if t = ''text''
                       then setProp ''content'' (JStr c) (spreadObject t props)
                       else if children \<noteq> []
                       then setProp ''children'' (JArr children) (spreadObject t props)
                       else spreadObject t props) ''children'' = Some (JArr cs)"
    and c': "c' \<in> set cs"
  have na: "map_of (spreadObject t props) ''children'' \<noteq> Some (JArr cs)"
    using spreadObject_no_arr [of t props "''children''" "JArr cs"] by auto
  from m na have "cs = children"
    by (auto simp: map_of_setProp split: if_splits)
  with assms c' show "single c'" by simp
qed

lemma reduce_single:
  "(noNestedWrapper n \<longrightarrow> nodeToObject n = Inr v \<longrightarrow>
      (if isWrapper n then \<exists>xs. v = JArr xs \<and> (\<forall>x \<in> set xs. single x)
       else v = JNull \<or> single v))"
  "(list_all noNestedWrapper ns \<longrightarrow> list_all (\<lambda>c. \<not> isWrapper c) ns \<longrightarrow>
      wrapperChildren ns = Inr vs \<longrightarrow> (\<forall>x \<in> set vs. single x))"
  "(list_all noNestedWrapper ms \<longrightarrow> elementChildren ms = Inr ws \<longrightarrow> (\<forall>x \<in> set ws. single x))"
proof (induction n and ns and ms arbitrary: v and vs and ws
    rule: nodeToObject_wrapperChildren_elementChildren.induct)
  case (1 nodeValue)
  then show ?case by (auto simp: isWrapper_def single_text)
next
  case (2 tagName attributes childNodes)
  show ?case
  proof (intro impI)
    assume ok: "noNestedWrapper (ElementNode tagName attributes childNodes)"
      and r: "nodeToObject (ElementNode tagName attributes childNodes) = Inr v"
    let ?t = "elementType tagName attributes"
    show "if isWrapper (ElementNode tagName attributes childNodes)
          then \<exists>xs. v = JArr xs \<and> (\<forall>x \<in> set xs. single x)
          else v = JNull \<or> single v"
    proof (cases "?t = ''emptyLine''")
      case True
      with r show ?thesis by (simp add: isWrapper_def)
    next
      case ne: False
      show ?thesis
      proof (cases "?t = ''contentWrapper''")
        case True
        with r ne obtain xs where w: "wrapperChildren childNodes = Inr xs" and v: "v = JArr xs"
          by (auto simp: Let_def split: sum.splits)
        from ok True have "list_all noNestedWrapper childNodes"
          and "list_all (\<lambda>c. \<not> isWrapper c) childNodes" by simp_all
        with "2.IH"(1) [OF refl ne True, of xs] w have "\<forall>x \<in> set xs. single x" by simp
        with v True show ?thesis by (simp add: isWrapper_def)
      next
        case False
        with r ne obtain props children where p: "parseProperties attributes = Inr props"
          and e: "elementChildren childNodes = Inr children"
          and v: "v = JObj (if ?t = ''text''
                       then setProp ''content'' (JStr (concat (map contentOf children)))
                              (spreadObject ?t props)
                       else if children \<noteq> []
                       then setProp ''children'' (JArr children) (spreadObject ?t props)
                       else spreadObject ?t props)"
          by (auto simp: Let_def split: sum.splits)
        from ok have "list_all noNestedWrapper childNodes" by simp
        with "2.IH"(2) [OF refl ne False p, of children] e
        have "\<forall>x \<in> set children. single x" by simp
        from element_single [OF this] v have "single v" by simp
        with False show ?thesis by (simp add: isWrapper_def)
      qed
    qed
  qed
next
  case 3
  then show ?case by (simp add: isWrapper_def)
next
  case 4
  then show ?case by simp
next
  case (5 child rest)
  show ?case
  proof (intro impI)
    assume ok: "list_all noNestedWrapper (child # rest)"
      and nw: "list_all (\<lambda>c. \<not> isWrapper c) (child # rest)"
      and r: "wrapperChildren (child # rest) = Inr vs"
    from r obtain o' cs where c: "nodeToObject child = Inr o'"
      and w: "wrapperChildren rest = Inr cs" and vs: "vs = pushChild o' @ cs"
      by (auto split: sum.splits)
    from "5.IH"(1) [of o'] ok nw c have "o' = JNull \<or> single o'" by simp
    then have "\<forall>x \<in> set (pushChild o'). single x" by (auto simp: pushChild_def)
    moreover from "5.IH"(2) [OF c, of cs] ok nw w have "\<forall>x \<in> set cs. single x" by simp
    ultimately show "\<forall>x \<in> set vs. single x" using vs by auto
  qed
next
  case 6
  then show ?case by simp
next
  case (7 child rest)
  show ?case
  proof (intro impI)
    assume ok: "list_all noNestedWrapper (child # rest)"
      and r: "elementChildren (child # rest) = Inr ws"
    from r obtain o' cs where c: "nodeToObject child = Inr o'"
      and w: "elementChildren rest = Inr cs" and ws: "ws = pushOrSpread o' @ cs"
      by (auto split: sum.splits)
    from "7.IH"(1) [of o'] ok c
    have "o' = JNull \<or> single o' \<or> (\<exists>xs. o' = JArr xs \<and> (\<forall>x \<in> set xs. single x))"
      by (auto split: if_splits)
    from pushOrSpread_single [OF this] have "\<forall>x \<in> set (pushOrSpread o'). single x" .
    moreover from "7.IH"(2) [OF c, of cs] ok w have "\<forall>x \<in> set cs. single x" by simp
    ultimately show "\<forall>x \<in> set ws. single x" using ws by auto
  qed
qed

lemma htmlToDocx_single_nodes:
  "list_all noNestedWrapper ns \<Longrightarrow> htmlToDocx ns = Inr out \<Longrightarrow> \<forall>x \<in> set out. single x"
  using reduce_single(3) [of ns out] by (simp add: htmlToDocx_def)

lemma table_heads_not_type:
  "list_all (\<lambda>(n, p). hd p \<noteq> ''type'') translationTable"
  by code_simp

lemma assignPath_other_key:
  "assignPath q x ps = Inr ps' \<Longrightarrow> q \<noteq> [] \<Longrightarrow> k \<noteq> hd q \<Longrightarrow> map_of ps' k = map_of ps k"
proof (cases q)
  case Nil
  then show "q \<noteq> [] \<Longrightarrow> map_of ps' k = map_of ps k" by simp
next
  case (Cons a q')
  assume r: "assignPath q x ps = Inr ps'" and k: "k \<noteq> hd q"
  show "map_of ps' k = map_of ps k"
  proof (cases q')
    case Nil
    with Cons r k show ?thesis by (auto simp: map_of_setProp)
  next
    case (Cons b q'')
    with \<open>q = a # q'\<close> r k show ?thesis
      by (auto simp: map_of_setProp split: pval.splits sum.splits)
  qed
qed

lemma applyAttr_no_type:
  assumes "applyAttr a ps = Inr ps'" "map_of ps ''type'' = None"
  shows "map_of ps' ''type'' = None"
proof (cases "isDataAttr (fst a)")
  case False
  with assms show ?thesis by (simp add: applyAttr_def)
next
  case True
  show ?thesis
  proof (cases "fst a = ''data-underline''")
    case u: True
    with True assms(1) have "assignPath [''underline''] (PObj []) ps = Inr ps'"
      by (simp add: applyAttr_def)
    from assignPath_other_key [OF this, of "''type''"] assms(2) show ?thesis by simp
  next
    case nu: False
    show ?thesis
    proof (cases "map_of translationTable (fst a)")
      case (Some path)
      with True nu assms(1) have r: "assignPath path (PStr (snd a)) ps = Inr ps'"
        by (simp add: applyAttr_def)
      from map_of_SomeD [OF Some] table_heads_not_type have "hd path \<noteq> ''type''"
        by (auto simp: list_all_iff)
      moreover from table_path_facts(1) [OF Some] have "path \<noteq> []" .
      ultimately show ?thesis using assignPath_other_key [OF r, of "''type''"] assms(2) by simp
    next
      case None
      from True have sw: "startsWith (fst a) ''data-''" and nt: "fst a \<noteq> ''data-type''"
        by (simp_all add: isDataAttr_def)
      have "flatKey (fst a) \<noteq> ''type''"
      proof
        assume "flatKey (fst a) = ''type''"
        moreover from sw have "fst a = ''data-'' @ flatKey (fst a)"
          using startsWith_split [of "fst a" "''data-''"] by (simp only: flatKey_drop)
        ultimately have "fst a = ''data-type''" by simp
        with nt show False by simp
      qed
      with True nu None assms show ?thesis
        by (auto simp: applyAttr_def assignFlat_def flatKey_def map_of_setProp Let_def
            split: if_splits)
    qed
  qed
qed

lemma parseFrom_no_type:
  "parseFrom attrs ps = Inr ps' \<Longrightarrow> map_of ps ''type'' = None \<Longrightarrow> map_of ps' ''type'' = None"
proof (induction attrs arbitrary: ps)
  case Nil
  then show ?case by simp
next
  case (Cons a attrs)
  from Cons.prems(1) obtain ps1 where a: "applyAttr a ps = Inr ps1"
    and r: "parseFrom attrs ps1 = Inr ps'" by (auto split: sum.splits)
  from applyAttr_no_type [OF a Cons.prems(2)] Cons.IH [OF r] show ?case by simp
qed

lemma foldl_setProp_type:
  "map_of obj ''type'' = Some t \<Longrightarrow> ''type'' \<notin> fst ` set props \<Longrightarrow>
   map_of (foldl (\<lambda>obj (k, v). setProp k (ofProp v) obj) obj props) ''type'' = Some t"
proof (induction props arbitrary: obj)
  case Nil
  then show ?case by simp
next
  case (Cons p props)
  obtain k v where p: "p = (k, v)" by (cases p)
  with Cons.prems have "map_of (setProp k (ofProp v) obj) ''type'' = Some t"
    by (auto simp: map_of_setProp)
  from Cons.IH [OF this] Cons.prems(2) p show ?case by simp
qed

lemma spreadObject_type:
  assumes "parseProperties attrs = Inr props"
  shows "map_of (spreadObject t props) ''type'' = Some (JStr t)"
proof -
  from assms have "map_of props ''type'' = None"
    using parseFrom_no_type [of attrs "[]" props] by (simp add: parseProperties_def)
  then have "''type'' \<notin> fst ` set props" by (simp add: map_of_eq_None_iff)
  then show ?thesis unfolding spreadObject_def by (intro foldl_setProp_type) simp_all
qed

lemma pushOrSpread_unwrapped:
  assumes "v = JNull \<or> unwrapped v"
  shows "\<forall>x \<in> set (pushOrSpread v). unwrapped x"
  using assms by (auto simp: pushOrSpread_def elim: unwrapped.cases split: jsv.splits)

lemma pushChild_unwrapped:
  assumes "v = JNull \<or> unwrapped v"
  shows "\<forall>x \<in> set (pushChild v). unwrapped x"
  using assms by (auto simp: pushChild_def)

lemma element_unwrapped:
  assumes c: "\<forall>x \<in> set children. unwrapped x"
    and p: "parseProperties attrs = Inr props"
    and t: "t \<noteq> ''contentWrapper''"
  shows "unwrapped (JObj (if t = ''text''
                       then setProp ''content'' (JStr s) (spreadObject t props)
                       else if children \<noteq> []
                       then setProp ''children'' (JArr children) (spreadObject t props)
                       else spreadObject t props))"
proof (rule unwrapped.obj)
  from spreadObject_type [OF p, of t] t
  show "map_of (if t = ''text''
                       then setProp ''content'' (JStr s) (spreadObject t props)
                       else if children \<noteq> []
                       then setProp ''children'' (JArr children) (spreadObject t props)
                       else spreadObject t props) ''type'' \<noteq> Some (JStr ''contentWrapper'')"
    by (auto simp: map_of_setProp)
next
  fix cs c'
  assume m: "map_of (if t = ''text''
                       then setProp ''content'' (JStr s) (spreadObject t props)
                       else if children \<noteq> []
                       then setProp ''children'' (JArr children) (spreadObject t props)
                       else spreadObject t props) ''children'' = Some (JArr cs)"
    and c': "c' \<in> set cs"
  have na: "map_of (spreadObject t props) ''children'' \<noteq> Some (JArr cs)"
    using spreadObject_no_arr [of t props "''children''" "JArr cs"] by auto
  from m na have "cs = children"
    by (auto simp: map_of_setProp split: if_splits)
  with c c' show "unwrapped c'" by simp
qed

lemma reduce_unwrapped:
  "(nodeToObject n = Inr v \<longrightarrow> v = JNull \<or> unwrapped v)"
  "(wrapperChildren ns = Inr vs \<longrightarrow> (\<forall>x \<in> set vs. unwrapped x))"
  "(elementChildren ms = Inr ws \<longrightarrow> (\<forall>x \<in> set ws. unwrapped x))"
proof (induction n and ns and ms arbitrary: v and vs and ws
    rule: nodeToObject_wrapperChildren_elementChildren.induct)
  case (1 nodeValue)
  have "unwrapped (textObject nodeValue)"
    unfolding textObject_def by (rule unwrapped.obj) simp_all
  then show ?case by auto
next
  case (2 tagName attributes childNodes)
  show ?case
  proof (intro impI)
    assume r: "nodeToObject (ElementNode tagName attributes childNodes) = Inr v"
    let ?t = "elementType tagName attributes"
    show "v = JNull \<or> unwrapped v"
    proof (cases "?t = ''emptyLine''")
      case True
      with r show ?thesis by simp
    next
      case ne: False
      show ?thesis
      proof (cases "?t = ''contentWrapper''")
        case True
        with r ne obtain xs where w: "wrapperChildren childNodes = Inr xs" and v: "v = JArr xs"
          by (auto simp: Let_def split: sum.splits)
        with "2.IH"(1) [OF refl ne True, of xs] have "\<forall>x \<in> set xs. unwrapped x" by simp
        with v show ?thesis by (auto intro: unwrapped.arr)
      next
        case False
        with r ne obtain props children where p: "parseProperties attributes = Inr props"
          and e: "elementChildren childNodes = Inr children"
          and v: "v = JObj (if ?t = ''text''
                       then setProp ''content'' (JStr (concat (map contentOf children)))
                              (spreadObject ?t props)
                       else if children \<noteq> []
                       then setProp ''children'' (JArr children) (spreadObject ?t props)
                       else spreadObject ?t props)"
          by (auto simp: Let_def split: sum.splits)
        from "2.IH"(2) [OF refl ne False p, of children] e
        have "\<forall>x \<in> set children. unwrapped x" by simp
        from element_unwrapped [OF this p False] v show ?thesis by simp
      qed
    qed
  qed
next
  case 3
  then show ?case by simp
next
  case 4
  then show ?case by simp
next
  case (5 child rest)
  show ?case
  proof (intro impI)
    assume r: "wrapperChildren (child # rest) = Inr vs"
    from r obtain o' cs where c: "nodeToObject child = Inr o'"
      and w: "wrapperChildren rest = Inr cs" and vs: "vs = pushChild o' @ cs"
      by (auto split: sum.splits)
    from "5.IH"(1) [of o'] c have "o' = JNull \<or> unwrapped o'" by simp
    from pushChild_unwrapped [OF this] have "\<forall>x \<in> set (pushChild o'). unwrapped x" .
    moreover from "5.IH"(2) [OF c, of cs] w have "\<forall>x \<in> set cs. unwrapped x" by simp
    ultimately show "\<forall>x \<in> set vs. unwrapped x" using vs by auto
  qed
next
  case 6
  then show ?case by simp
next
  case (7 child rest)
  show ?case
  proof (intro impI)
    assume r: "elementChildren (child # rest) = Inr ws"
    from r obtain o' cs where c: "nodeToObject child = Inr o'"
      and w: "elementChildren rest = Inr cs" and ws: "ws = pushOrSpread o' @ cs"
      by (auto split: sum.splits)
    from "7.IH"(1) [of o'] c have "o' = JNull \<or> unwrapped o'" by simp
    from pushOrSpread_unwrapped [OF this] have "\<forall>x \<in> set (pushOrSpread o'). unwrapped x" .
    moreover from "7.IH"(2) [OF c, of cs] w have "\<forall>x \<in> set cs. unwrapped x" by simp
    ultimately show "\<forall>x \<in> set ws. unwrapped x" using ws by auto
  qed
qed

lemma htmlToDocx_no_wrapper_type:
  "htmlToDocx ns = Inr out \<Longrightarrow> \<forall>x \<in> set out. unwrapped x"
  using reduce_unwrapped(3) [of ns out] by (simp add: htmlToDocx_def)

text \<open>
  Examples: a wrapper spliced into its parent and a pruned \<open>emptyLine\<close>; the attribute
  mapping; a flat key that holds a string where a group is assigned.
\<close>

lemma htmlToDocx_examples:
  "htmlToDocx
     [ElementNode ''P'' [(''data-type'', ''paragraph'')]
        [ElementNode ''SPAN'' [(''class'', ''w-1/2''), (''data-type'', ''contentWrapper'')]
           [ElementNode ''SPAN'' [(''data-bold'', ''true''), (''data-type'', ''text'')]
              [TextNode ''a '', TextNode ''b'']],
         ElementNode ''DIV'' [(''data-type'', ''emptyLine'')] [TextNode ''gone'']]]
   = Inr [JObj [(''type'', JStr ''paragraph''),
                (''children'',
                   JArr [JObj [(''type'', JStr ''text''), (''bold'', JStr ''true''),
                               (''content'', JStr ''a b'')]])]]"
  "htmlToDocx
     [ElementNode ''P'' [(''data-spacing-after'', ''50''), (''data-foo'', ''x'')] []]
   = Inr [JObj [(''type'', JStr ''p''), (''spacing'', JObj [(''after'', JStr ''50'')]),
                (''foo'', JStr ''x'')]]"
  "htmlToDocx [ElementNode ''P'' [(''data-spacing'', ''x''), (''data-spacing-after'', ''50'')] []]
   = Inl TypeError"
  by code_simp+

subsection \<open>The claims on the serializer\<close>

text \<open>
  Claim C2: the children of a \<open>contentWrapper\<close> are spliced into the parent, also
  through a wrapper directly inside a wrapper, so that every entry of a children
  sequence is a single node. The wrapper branch pushes the result of a child without
  spreading it, where the element branch and the top-level loop spread an array: for a
  wrapper directly inside a wrapper inside a \<open>div\<close>, the children of the \<open>div\<close> hold an
  array.
\<close>

theorem htmlToDocx_nested_wrapper_leaves_array:
  "htmlToDocx
     [ElementNode ''DIV'' []
        [ElementNode ''SPAN'' [(''data-type'', ''contentWrapper'')]
           [ElementNode ''SPAN'' [(''data-type'', ''contentWrapper'')] [TextNode ''x'']]]]
   = Inr [JObj [(''type'', JStr ''div''),
                (''children'',
                 JArr [JArr [JObj [(''type'', JStr ''text''), (''content'', JStr ''x'')]]])]]"
  by code_simp




text \<open>
  Claim C7, as stated: every attribute of the table is placed at its nested path and
  no other \<open>data-*\<close> attribute is dropped. It fails when a flat key is the name of a
  group: after \<open>data-spacing-after="50"\<close> the attribute \<open>data-spacing="x"\<close> replaces
  the record \<open>spacing\<close>, and \<open>properties.spacing.after\<close> is undefined.
\<close>

theorem parseProperties_flat_key_overwrites_group:
  "parseProperties [(''data-spacing-after'', ''50''), (''data-spacing'', ''x'')]
     = Inr [(''spacing'', PStr ''x'')]
   \<and> getPath [''spacing'', ''after''] [(''spacing'', PStr ''x'')] = None"
  by code_simp

text \<open>
  Claim C7, amended. For the attributes of an element (their names distinct) in which no
  \<open>data-*\<close> attribute outside the table has the flat key \<open>__proto__\<close> or a flat key that
  is the top-level key written by a table attribute of the same element,
  \<open>parseProperties\<close> returns properties in which every attribute of the table has its
  value at its nested path, \<open>data-underline\<close> is the empty record \<open>underline\<close>, and every
  other \<open>data-*\<close> attribute except \<open>data-type\<close> has its value at the flat key that is
  its name without the prefix \<open>data-\<close>.
\<close>

theorem parseProperties_places:
  assumes "collisionFree attrs"
  shows "\<exists>ps. parseProperties attrs = Inr ps
     \<and> (\<forall>(n, v) \<in> set attrs.
          (\<forall>path. map_of translationTable n = Some path \<longrightarrow> getPath path ps = Some (PStr v))
          \<and> (n = ''data-underline'' \<longrightarrow> getPath [''underline''] ps = Some (PObj []))
          \<and> (isDataAttr n \<and> n \<noteq> ''data-underline'' \<and> map_of translationTable n = None \<longrightarrow>
               getPath [drop 5 n] ps = Some (PStr v)))"
proof -
  from parseProperties_paths [OF assms] obtain ps where
    p: "parseProperties attrs = Inr ps"
    and g: "\<And>a. a \<in> set attrs \<Longrightarrow> isDataAttr (fst a) \<Longrightarrow>
              getPath (pathOf (fst a)) ps = Some (valueOf a)"
    by blast
  have "\<forall>(n, v) \<in> set attrs.
          (\<forall>path. map_of translationTable n = Some path \<longrightarrow> getPath path ps = Some (PStr v))
          \<and> (n = ''data-underline'' \<longrightarrow> getPath [''underline''] ps = Some (PObj []))
          \<and> (isDataAttr n \<and> n \<noteq> ''data-underline'' \<and> map_of translationTable n = None \<longrightarrow>
               getPath [drop 5 n] ps = Some (PStr v))"
  proof (intro ballI, clarify, intro conjI allI impI)
    fix n v path
    assume a: "(n, v) \<in> set attrs" and t: "map_of translationTable n = Some path"
    from table_path_facts(3,4) [OF t] have "isDataAttr n" and nu: "n \<noteq> ''data-underline''" .
    with g [OF a] t show "getPath path ps = Some (PStr v)"
      by (simp add: pathOf_def valueOf_def)
  next
    fix n v
    assume a: "(n, v) \<in> set attrs" and u: "n = ''data-underline''"
    then have "isDataAttr n" by (simp add: isDataAttr_def startsWith_def)
    with g [OF a] u show "getPath [''underline''] ps = Some (PObj [])"
      by (simp add: pathOf_def valueOf_def)
  next
    fix n v
    assume a: "(n, v) \<in> set attrs"
      and f: "isDataAttr n \<and> n \<noteq> ''data-underline'' \<and> map_of translationTable n = None"
    then have "startsWith n ''data-''" by (simp add: isDataAttr_def)
    then have "flatKey n = drop (length ''data-'') n" by (rule flatKey_drop)
    moreover have five: "length ''data-'' = 5" by simp
    ultimately have "flatKey n = drop 5 n" by (simp only: five)
    with g [OF a] f show "getPath [drop 5 n] ps = Some (PStr v)"
      by (simp add: pathOf_def valueOf_def)
  qed
  with p show ?thesis by blast
qed

theorem parseProperties_places_witness:
  "collisionFree [(''data-spacing-after'', ''50''), (''data-foo'', ''x''), (''data-width'', ''5'')]
   \<and> (\<exists>ps. parseProperties
               [(''data-spacing-after'', ''50''), (''data-foo'', ''x''), (''data-width'', ''5'')]
             = Inr ps
         \<and> getPath [''spacing'', ''after''] ps = Some (PStr ''50'')
         \<and> getPath [''foo''] ps = Some (PStr ''x'')
         \<and> getPath [''width''] ps = Some (PStr ''5''))"
proof -
  let ?A = "[(''data-spacing-after'', ''50''), (''data-foo'', ''x''), (''data-width'', ''5'')]"
  have c: "collisionFree ?A" by code_simp
  have t1: "map_of translationTable ''data-spacing-after'' = Some [''spacing'', ''after'']"
    by code_simp
  have t2: "isDataAttr ''data-foo'' \<and> ''data-foo'' \<noteq> ''data-underline''
      \<and> map_of translationTable ''data-foo'' = None"
    by code_simp
  have t3: "isDataAttr ''data-width'' \<and> ''data-width'' \<noteq> ''data-underline''
      \<and> map_of translationTable ''data-width'' = None"
    by code_simp
  from parseProperties_places [OF c] obtain ps where
    p: "parseProperties ?A = Inr ps"
    and g: "\<forall>(n, v) \<in> set ?A.
          (\<forall>path. map_of translationTable n = Some path \<longrightarrow> getPath path ps = Some (PStr v))
          \<and> (n = ''data-underline'' \<longrightarrow> getPath [''underline''] ps = Some (PObj []))
          \<and> (isDataAttr n \<and> n \<noteq> ''data-underline'' \<and> map_of translationTable n = None \<longrightarrow>
               getPath [drop 5 n] ps = Some (PStr v))"
    by blast
  from g t1 have "getPath [''spacing'', ''after''] ps = Some (PStr ''50'')" by simp
  moreover from g t2 have "getPath [drop 5 ''data-foo''] ps = Some (PStr ''x'')" by simp
  then have "getPath [''foo''] ps = Some (PStr ''x'')" by simp
  moreover from g t3 have "getPath [drop 5 ''data-width''] ps = Some (PStr ''5'')" by simp
  then have "getPath [''width''] ps = Some (PStr ''5'')" by simp
  ultimately show ?thesis using c p by blast
qed
end
